theory Spec2Isabelle
  imports Main "HOL-Library.Monad_Syntax"
begin

section \<open>The Othello engine of srl/envs/othello.py\<close>

text \<open>
  Every function of the source that can raise (IndexError on a list or array index,
  KeyError, ZeroDivisionError, ValueError) or that contains a \<^verbatim>\<open>while\<close> loop
  returns an \<open>option\<close>: \<open>None\<close> means that the call does not return normally (it
  raises, or the loop never ends). Python's unbounded integers are \<open>int\<close>.
\<close>

subsection \<open>Python indexing\<close>

text \<open>
  Indexing of a Python list and of a one-dimensional numpy array: a negative index counts
  from the end, an index outside \<open>[-n, n)\<close> raises IndexError.
\<close>

definition py_index :: "nat \<Rightarrow> int \<Rightarrow> nat option" where
  "py_index n i =
     (if 0 \<le> i \<and> i < int n then Some (nat i)
      else if - int n \<le> i \<and> i < 0 then Some (nat (int n + i))
      else None)"

definition py_get :: "'a list \<Rightarrow> int \<Rightarrow> 'a option" where
  "py_get xs i = map_option (\<lambda>j. xs ! j) (py_index (length xs) i)"

definition py_set :: "'a list \<Rightarrow> int \<Rightarrow> 'a \<Rightarrow> 'a list option" where
  "py_set xs i v = map_option (\<lambda>j. xs[j := v]) (py_index (length xs) i)"

subsection \<open>The engine state\<close>

text \<open>
  The attributes of the dataclass \<^verbatim>\<open>Othello\<close>: the dimensions, the mover
  (\<^verbatim>\<open>_player_index\<close>), the last action, the flat board (a numpy integer array) and
  \<^verbatim>\<open>movable_dirs\<close>, a two-element list holding one list of direction lists per player.
\<close>

record othello =
  W :: int
  H :: int
  player_index :: int
  action :: int
  field :: "int list"
  movable_dirs :: "int list list list"

definition get_field :: "othello \<Rightarrow> int \<Rightarrow> int \<Rightarrow> int option" where
  "get_field s x y =
     (if x < 0 then Some 9
      else if x \<ge> W s then Some 9
      else if y < 0 then Some 9
      else if y \<ge> H s then Some 9
      else py_get (field s) (W s * y + x))"

definition set_field :: "othello \<Rightarrow> int \<Rightarrow> int \<Rightarrow> int \<Rightarrow> othello option" where
  "set_field s x y n =
     do { f \<leftarrow> py_set (field s) (W s * y + x) n; Some (s\<lparr>field := f\<rparr>) }"

definition pos :: "othello \<Rightarrow> int \<Rightarrow> int \<Rightarrow> int" where
  "pos s x y = W s * y + x"

text \<open>\<^verbatim>\<open>a % W, a // W\<close>: floor division, ZeroDivisionError when \<open>W = 0\<close>.\<close>

definition pos_decode :: "othello \<Rightarrow> int \<Rightarrow> (int \<times> int) option" where
  "pos_decode s a = (if W s = 0 then None else Some (a mod W s, a div W s))"

text \<open>
  Modelled from the spec: the class \<^verbatim>\<open>DiscreteSpace\<close> is not part of the sources at hand;
  the spec gives the action indices as \<open>[0, W * H)\<close>, so \<^verbatim>\<open>DiscreteSpace(W * H).n\<close> is
  \<open>W * H\<close>.
\<close>

definition action_space_n :: "othello \<Rightarrow> int" where
  "action_space_n s = W s * H s"

subsection \<open>Movable directions\<close>

text \<open>The literal list of \<^verbatim>\<open>(diff_x, diff_y, dir_)\<close> triples of the scanner.\<close>

definition scan_dirs :: "(int \<times> int \<times> int) list" where
  "scan_dirs =
     [(-1, 1, 1), (0, 1, 2), (1, 1, 3), (1, 0, 6), (1, -1, 9), (0, -1, 8), (-1, -1, 7), (-1, 0, 4)]"

definition color_of :: "int \<Rightarrow> int" where
  "color_of p = (if p = 0 then 1 else -1)"

text \<open>
  \<^verbatim>\<open>while self.get_field(tmp_x, tmp_y) == enemy_color: tmp_x += diff_x; tmp_y += diff_y\<close>;
  the result is the position at which the loop stops.
\<close>

partial_function (option) skip_enemy ::
  "othello \<Rightarrow> int \<Rightarrow> int \<Rightarrow> int \<Rightarrow> int \<Rightarrow> int \<Rightarrow> (int \<times> int) option" where
  "skip_enemy s enemy_color diff_x diff_y tmp_x tmp_y =
     do { v \<leftarrow> get_field s tmp_x tmp_y;
          if v = enemy_color
          then skip_enemy s enemy_color diff_x diff_y (tmp_x + diff_x) (tmp_y + diff_y)
          else Some (tmp_x, tmp_y) }"

declare skip_enemy.simps [code]

text \<open>The body of the loop over the triples, for one triple: is \<^verbatim>\<open>dir_\<close> appended?\<close>

definition dir_movable :: "othello \<Rightarrow> int \<Rightarrow> int \<Rightarrow> int \<Rightarrow> int \<Rightarrow> int \<Rightarrow> int \<Rightarrow> bool option" where
  "dir_movable s my_color enemy_color x y diff_x diff_y =
     do { v \<leftarrow> get_field s (x + diff_x) (y + diff_y);
          if v \<noteq> enemy_color then Some False
          else do {
            (tmp_x, tmp_y) \<leftarrow>
               skip_enemy s enemy_color diff_x diff_y (x + diff_x + diff_x) (y + diff_y + diff_y);
            w \<leftarrow> get_field s tmp_x tmp_y;
            Some (w = my_color) } }"

text \<open>\<^verbatim>\<open>dirs_list[self.pos(x, y)].append(dir_)\<close>.\<close>

definition append_dir :: "int list list \<Rightarrow> int \<Rightarrow> int \<Rightarrow> int list list option" where
  "append_dir dirs_list p d =
     do { l \<leftarrow> py_get dirs_list p; py_set dirs_list p (l @ [d]) }"

fun scan_cell ::
  "othello \<Rightarrow> int \<Rightarrow> int \<Rightarrow> int \<Rightarrow> int \<Rightarrow> (int \<times> int \<times> int) list \<Rightarrow> int list list
     \<Rightarrow> int list list option" where
  "scan_cell s my_color enemy_color x y [] dirs_list = Some dirs_list"
| "scan_cell s my_color enemy_color x y ((diff_x, diff_y, d) # ts) dirs_list =
     do { b \<leftarrow> dir_movable s my_color enemy_color x y diff_x diff_y;
          dirs_list' \<leftarrow> (if b then append_dir dirs_list (pos s x y) d else Some dirs_list);
          scan_cell s my_color enemy_color x y ts dirs_list' }"

text \<open>The loop \<^verbatim>\<open>for x in range(self.W)\<close> of one row, then the loop over the rows.\<close>

fun scan_row ::
  "othello \<Rightarrow> int \<Rightarrow> int \<Rightarrow> int \<Rightarrow> int list \<Rightarrow> int list list \<Rightarrow> int list list option" where
  "scan_row s my_color enemy_color y [] dirs_list = Some dirs_list"
| "scan_row s my_color enemy_color y (x # xs) dirs_list =
     do { v \<leftarrow> get_field s x y;
          dirs_list' \<leftarrow>
            (if v \<noteq> 0 then Some dirs_list
             else scan_cell s my_color enemy_color x y scan_dirs dirs_list);
          scan_row s my_color enemy_color y xs dirs_list' }"

fun scan_rows ::
  "othello \<Rightarrow> int \<Rightarrow> int \<Rightarrow> int list \<Rightarrow> int list list \<Rightarrow> int list list option" where
  "scan_rows s my_color enemy_color [] dirs_list = Some dirs_list"
| "scan_rows s my_color enemy_color (y # ys) dirs_list =
     do { dirs_list' \<leftarrow> scan_row s my_color enemy_color y [0 .. W s - 1] dirs_list;
          scan_rows s my_color enemy_color ys dirs_list' }"

definition calc_movable_dirs :: "othello \<Rightarrow> int \<Rightarrow> int list list option" where
  "calc_movable_dirs s p =
     (let my_color = color_of p; enemy_color = - my_color
      in scan_rows s my_color enemy_color [0 .. H s - 1] (replicate (nat (W s * H s)) []))"

subsection \<open>Reset\<close>

text \<open>
  \<^verbatim>\<open>int(self.W / 2) - 1\<close>: true division, then truncation towards zero. The floating
  point quotient is exact below \<open>2^53\<close>; a board of that width cannot be allocated.
  \<^verbatim>\<open>np.zeros(n)\<close> raises ValueError for a negative \<open>n\<close>.
\<close>

definition half_trunc :: "int \<Rightarrow> int" where
  "half_trunc n = (if 0 \<le> n then n div 2 else - ((- n) div 2))"

definition call_reset :: "othello \<Rightarrow> othello option" where
  "call_reset s0 =
     (if W s0 * H s0 < 0 then None
      else do {
        let s = s0\<lparr>action := 0, player_index := 0, field := replicate (nat (W s0 * H s0)) 0\<rparr>;
        let center_x = half_trunc (W s) - 1;
        let center_y = half_trunc (H s) - 1;
        s \<leftarrow> set_field s center_x center_y 1;
        s \<leftarrow> set_field s (center_x + 1) (center_y + 1) 1;
        s \<leftarrow> set_field s (center_x + 1) center_y (-1);
        s \<leftarrow> set_field s center_x (center_y + 1) (-1);
        d0 \<leftarrow> calc_movable_dirs s 0;
        d1 \<leftarrow> calc_movable_dirs s 1;
        Some (s\<lparr>movable_dirs := [d0, d1]\<rparr>) })"

subsection \<open>Snapshots\<close>

text \<open>\<^verbatim>\<open>backup\<close> pickles five attributes; \<^verbatim>\<open>restore\<close> writes them back.\<close>

definition backup :: "othello \<Rightarrow> int \<times> int \<times> int \<times> int list \<times> int list list list" where
  "backup s = (player_index s, W s, H s, field s, movable_dirs s)"

definition restore :: "othello \<Rightarrow> int \<times> int \<times> int \<times> int list \<times> int list list list \<Rightarrow> othello" where
  "restore s d =
     (case d of (p, w, h, f, m) \<Rightarrow>
        s\<lparr>player_index := p, W := w, H := h, field := f, movable_dirs := m\<rparr>)"

subsection \<open>Applying a move\<close>

text \<open>The dictionary \<^verbatim>\<open>move_diff\<close>; a missing key raises KeyError.\<close>

definition move_diff :: "int \<Rightarrow> (int \<times> int) option" where
  "move_diff d =
     (if d = 1 then Some (-1, 1) else if d = 2 then Some (0, 1) else if d = 3 then Some (1, 1)
      else if d = 6 then Some (1, 0) else if d = 9 then Some (1, -1) else if d = 8 then Some (0, -1)
      else if d = 7 then Some (-1, -1) else if d = 4 then Some (-1, 0) else None)"

text \<open>
  \<^verbatim>\<open>while self.get_field(tmp_x, tmp_y) != my_color: self.field[self.pos(tmp_x, tmp_y)] = my_color; ...\<close>
\<close>

partial_function (option) flip_walk ::
  "int \<Rightarrow> int \<Rightarrow> int \<Rightarrow> othello \<Rightarrow> int \<Rightarrow> int \<Rightarrow> othello option" where
  "flip_walk my_color diff_x diff_y s tmp_x tmp_y =
     do { v \<leftarrow> get_field s tmp_x tmp_y;
          if v \<noteq> my_color
          then do { f \<leftarrow> py_set (field s) (pos s tmp_x tmp_y) my_color;
                    flip_walk my_color diff_x diff_y (s\<lparr>field := f\<rparr>) (tmp_x + diff_x) (tmp_y + diff_y) }
          else Some s }"

declare flip_walk.simps [code]

fun flip_dirs :: "int \<Rightarrow> int \<Rightarrow> int \<Rightarrow> int list \<Rightarrow> othello \<Rightarrow> othello option" where
  "flip_dirs my_color x y [] s = Some s"
| "flip_dirs my_color x y (movable_dir # ds) s =
     do { (diff_x, diff_y) \<leftarrow> move_diff movable_dir;
          s' \<leftarrow> flip_walk my_color diff_x diff_y s (x + diff_x) (y + diff_y);
          flip_dirs my_color x y ds s' }"

text \<open>The expression \<^verbatim>\<open>self.movable_dirs[player_index][action]\<close>.\<close>

definition movable_at :: "othello \<Rightarrow> int \<Rightarrow> int \<Rightarrow> int list option" where
  "movable_at s p a = do { dirs \<leftarrow> py_get (movable_dirs s) p; py_get dirs a }"

text \<open>
  The method \<^verbatim>\<open>_step\<close>: place the stone, walk every direction of the action's entry, then
  compute both maps again.
\<close>

definition step :: "othello \<Rightarrow> int \<Rightarrow> othello option" where
  "step s a =
     do { (x, y) \<leftarrow> pos_decode s a;
          let my_color = color_of (player_index s);
          f \<leftarrow> py_set (field s) a my_color;
          let s1 = s\<lparr>field := f\<rparr>;
          ds \<leftarrow> movable_at s1 (player_index s1) a;
          s2 \<leftarrow> flip_dirs my_color x y ds s1;
          d0 \<leftarrow> calc_movable_dirs s2 0;
          d1 \<leftarrow> calc_movable_dirs s2 1;
          Some (s2\<lparr>movable_dirs := [d0, d1]\<rparr>) }"

text \<open>
  \<^verbatim>\<open>[a for a in range(self.H * self.W) if len(self.movable_dirs[player_index][a]) == 0]\<close>
\<close>

fun invalid_loop :: "othello \<Rightarrow> int \<Rightarrow> int list \<Rightarrow> int list option" where
  "invalid_loop s p [] = Some []"
| "invalid_loop s p (a # as) =
     do { ds \<leftarrow> movable_at s p a;
          rest \<leftarrow> invalid_loop s p as;
          Some (if length ds = 0 then a # rest else rest) }"

definition get_invalid_actions :: "othello \<Rightarrow> int \<Rightarrow> int list option" where
  "get_invalid_actions s p = invalid_loop s p [0 .. H s * W s - 1]"

text \<open>\<^verbatim>\<open>self.action_space.n - len(self.get_invalid_actions(p))\<close>.\<close>

definition put_num :: "othello \<Rightarrow> int \<Rightarrow> int option" where
  "put_num s p = do { inv \<leftarrow> get_invalid_actions s p; Some (action_space_n s - int (length inv)) }"

text \<open>\<^verbatim>\<open>len([f for f in self.field if f == c])\<close>.\<close>

definition count_color :: "int \<Rightarrow> int list \<Rightarrow> int" where
  "count_color c f = int (length (filter (\<lambda>v. v = c) f))"

text \<open>
  \<^verbatim>\<open>call_step\<close> returns the engine after the call together with the tuple of the source:
  the board, the two rewards, \<^verbatim>\<open>done\<close> and the info dictionary (its items in order).
\<close>

type_synonym step_result = "othello \<times> int list \<times> int \<times> int \<times> bool \<times> (string \<times> int) list"

definition call_step :: "othello \<Rightarrow> int \<Rightarrow> step_result option" where
  "call_step s0 a =
     (let s = s0\<lparr>action := a\<rparr> in
      do { ds \<leftarrow> movable_at s (player_index s) a;
           if length ds = 0
           then (if player_index s = 0 then Some (s, field s, -1, 0, True, [])
                 else Some (s, field s, 0, -1, True, []))
           else do {
             s \<leftarrow> step s a;
             let enemy_player = (if player_index s = 0 then 1 else 0);
             let my_player = (if player_index s = 0 then 0 else 1);
             enemy_put_num \<leftarrow> put_num s enemy_player;
             my_put_num \<leftarrow> put_num s my_player;
             if enemy_put_num = 0 \<and> my_put_num = 0
             then (let p1_count = count_color 1 (field s);
                       p2_count = count_color (-1) (field s);
                       r1 = (if p1_count > p2_count then 1 else if p1_count < p2_count then -1 else 0);
                       r2 = (if p1_count > p2_count then -1 else if p1_count < p2_count then 1 else 0)
                   in Some (s, field s, r1, r2, True, [(''P1'', p1_count), (''P2'', p2_count)]))
             else if enemy_put_num = 0 then Some (s, field s, 0, 0, False, [])
             else Some (s\<lparr>player_index := enemy_player\<rparr>, field s, 0, 0, False, []) } })"

section \<open>The search agent \<^verbatim>\<open>Cpu\<close>\<close>

text \<open>
  Modelled from the spec: \<^verbatim>\<open>get_valid_actions\<close> is a method of the environment base
  class, which is not part of the sources at hand. The spec describes the legal actions as
  the complement of the illegal ones over the action indices.
\<close>

definition get_valid_actions :: "othello \<Rightarrow> int \<Rightarrow> int list option" where
  "get_valid_actions s p =
     do { inv \<leftarrow> get_invalid_actions s p;
          Some (filter (\<lambda>a. a \<notin> set inv) [0 .. action_space_n s - 1]) }"

definition evals8x8 :: "int list" where
  "evals8x8 =
     [30, -12, 0, -1, -1, 0, -12, 30,
      -12, -15, -3, -3, -3, -3, -15, -12,
      0, -3, 0, -1, -1, 0, -3, 0,
      -1, -3, -1, -1, -1, -1, -3, -1,
      -1, -3, -1, -1, -1, -1, -3, -1,
      0, -3, 0, -1, -1, 0, -3, 0,
      -12, -15, -3, -3, -3, -3, -15, -12,
      30, -12, 0, -1, -1, 0, -12, 30]"

definition evals6x6 :: "int list" where
  "evals6x6 =
     [30, -12, 0, 0, -12, 30,
      -12, -15, -3, -3, -15, -12,
      0, -3, 0, 0, -3, 0,
      0, -3, 0, 0, -3, 0,
      -12, -15, -3, -3, -15, -12,
      30, -12, 0, 0, -12, 30]"

text \<open>
  \<^verbatim>\<open>np.sum(evals * env.field)\<close> for a table of more than one entry: the shapes must
  agree, or the board has one cell, which numpy broadcasts; any other shape raises
  ValueError.
\<close>

definition np_sum_mul :: "int list \<Rightarrow> int list \<Rightarrow> int option" where
  "np_sum_mul evals f =
     (if length f = length evals then Some (sum_list (map2 (\<lambda>w v. w * v) evals f))
      else if length f = 1 then Some (sum_list (map (\<lambda>w. w * hd f) evals))
      else None)"

text \<open>\<^verbatim>\<open>np.max\<close> raises ValueError on an empty sequence.\<close>

definition np_max :: "int list \<Rightarrow> int option" where
  "np_max xs = (if xs = [] then None else Some (Max (set xs)))"

text \<open>The score of a child that is cut off: the table of the board's width.\<close>

definition eval_board :: "othello \<Rightarrow> int option" where
  "eval_board env =
     (if W env = 8 then np_sum_mul evals8x8 (field env)
      else if W env = 6 then np_sum_mul evals6x6 (field env)
      else Some 0)"

text \<open>
  \<^verbatim>\<open>str(env.field)\<close>, the key of the cache. numpy prints every entry of a one-dimensional
  integer array of at most 1000 entries, so the string determines the array. Above 1000
  entries it prints the first three and the last three entries around an ellipsis, and
  the widths of the printed entries only. The model keeps what the string determines:
  whether it is abbreviated, and the entries it shows.
\<close>

definition np_str :: "int list \<Rightarrow> bool \<times> int list" where
  "np_str f =
     (if length f > 1000 then (True, take 3 f @ drop (length f - 3) f) else (False, f))"

text \<open>
  The mutable state of the agent that the search touches: the class attribute
  \<^verbatim>\<open>Cpu.cache\<close> (a dictionary from \<^verbatim>\<open>str(env.field)\<close> to a score list) and the counter
  \<^verbatim>\<open>self._count\<close>. The configuration \<^verbatim>\<open>max_depth\<close> is never assigned during a search
  and is a parameter. Scores are integers or integer-valued floats (\<^verbatim>\<open>-999.0\<close>).
\<close>

record search =
  cache :: "bool \<times> int list \<Rightarrow> int list option"
  count :: int

text \<open>
  \<^verbatim>\<open>_negamax\<close> and the body of its loop over \<^verbatim>\<open>valid_actions\<close>. The environment is
  passed by reference in the source, so the model returns it along with the scores.
\<close>

function negamax :: "int \<Rightarrow> search \<Rightarrow> othello \<Rightarrow> int \<Rightarrow> (search \<times> othello \<times> int list) option"
  and negamax_loop ::
    "int \<Rightarrow> search \<Rightarrow> othello \<Rightarrow> int \<Rightarrow> int \<times> int \<times> int \<times> int list \<times> int list list list \<Rightarrow> int
       \<Rightarrow> int list \<Rightarrow> int list \<Rightarrow> (search \<times> othello \<times> int list) option" where
  "negamax max_depth c env depth =
     (case cache c (np_str (field env)) of
        Some v \<Rightarrow> Some (c, env, v)
      | None \<Rightarrow>
          do { let key = np_str (field env);
               let c = c\<lparr>count := count c + 1\<rparr>;
               let env_dat = backup env;
               let player = player_index env;
               valid_actions \<leftarrow> get_valid_actions env player;
               let scores = replicate (nat (action_space_n env)) (-999);
               (c, env, scores) \<leftarrow>
                  negamax_loop max_depth c env depth env_dat player valid_actions scores;
               Some (c\<lparr>cache := (cache c)(key \<mapsto> scores)\<rparr>, env, scores) })"
| "negamax_loop max_depth c env depth env_dat player [] scores = Some (c, env, scores)"
| "negamax_loop max_depth c env depth env_dat player (a # as) scores =
     do { let env = restore env env_dat;
          (env, obs, r1, r2, done, info) \<leftarrow> call_step env a;
          (c, env, v) \<leftarrow>
            (if done then Some (c, env, if player = 0 then r1 * 500 else r2 * 500)
             else if depth > max_depth
             then do { h \<leftarrow> eval_board env;
                       Some (c, env, if player \<noteq> 0 then - h else h) }
             else do { let is_enemy = (player \<noteq> player_index env);
                       (c, env, n_scores) \<leftarrow> negamax max_depth c env (depth + 1);
                       m \<leftarrow> np_max n_scores;
                       Some (c, env, if is_enemy then - m else m) });
          scores \<leftarrow> py_set scores a v;
          negamax_loop max_depth c env depth env_dat player as scores }"
  by pat_completeness auto
termination
  by (relation "measures
        [\<lambda>x. case x of Inl (md, c, env, d) \<Rightarrow> nat (md + 1 - d)
                      | Inr (md, c, env, d, dat, p, as, sc) \<Rightarrow> nat (md + 1 - d),
         \<lambda>x. case x of Inl _ \<Rightarrow> 1 | Inr _ \<Rightarrow> 0,
         \<lambda>x. case x of Inl _ \<Rightarrow> 0
                      | Inr (md, c, env, d, dat, p, as, sc) \<Rightarrow> length as]")
     auto

text \<open>
  \<^verbatim>\<open>call_policy\<close>: the search runs on a copy of the environment, the counter starts at
  zero. \<^verbatim>\<open>random.choice\<close> draws one index of a maximal score; the model returns the list of
  these indices, each of which the call can return. The wall-clock fields are left out.
\<close>

definition call_policy :: "int \<Rightarrow> search \<Rightarrow> othello \<Rightarrow> (search \<times> int list) option" where
  "call_policy max_depth c env =
     do { (c, env', scores) \<leftarrow> negamax max_depth (c\<lparr>count := 0\<rparr>) env 0;
          m \<leftarrow> np_max scores;
          Some (c, filter (\<lambda>a. scores ! nat a = m) [0 .. int (length scores) - 1]) }"


section \<open>Notions used in the statements\<close>

subsection \<open>Boards and rays\<close>

text \<open>
  A board is well formed when the array has \<open>W * H\<close> cells. On a well-formed board
  \<open>get_field\<close> never raises and returns \<open>cell\<close>, the stored value or the sentinel 9.
\<close>

definition board_ok :: "othello \<Rightarrow> bool" where
  "board_ok s = (length (field s) = nat (W s * H s))"

definition in_board :: "othello \<Rightarrow> int \<Rightarrow> int \<Rightarrow> bool" where
  "in_board s x y = (0 \<le> x \<and> x < W s \<and> 0 \<le> y \<and> y < H s)"

definition cell :: "othello \<Rightarrow> int \<Rightarrow> int \<Rightarrow> int" where
  "cell s x y = (if in_board s x y then field s ! nat (W s * y + x) else 9)"

definition unit_dir :: "int \<Rightarrow> int \<Rightarrow> bool" where
  "unit_dir dx dy = (dx \<in> {-1, 0, 1} \<and> dy \<in> {-1, 0, 1} \<and> (dx, dy) \<noteq> (0, 0))"

text \<open>
  \<open>outflank\<close> is the condition under which the scanner appends a direction: the neighbour
  has the colour \<open>e\<close>, and from the cell after it \<open>k \<ge> 0\<close> further cells of colour \<open>e\<close> are
  followed by a cell of colour \<open>my\<close>. \<open>dirs_spec\<close> is the map this condition describes.
\<close>

definition outflank :: "othello \<Rightarrow> int \<Rightarrow> int \<Rightarrow> int \<Rightarrow> int \<Rightarrow> int \<Rightarrow> int \<Rightarrow> bool" where
  "outflank s my e x y dx dy =
     (cell s (x + dx) (y + dy) = e \<and>
      (\<exists>k::nat. (\<forall>j<k. cell s (x + (int j + 2) * dx) (y + (int j + 2) * dy) = e)
          \<and> cell s (x + (int k + 2) * dx) (y + (int k + 2) * dy) = my))"

definition dirs_of :: "othello \<Rightarrow> int \<Rightarrow> int \<Rightarrow> int \<Rightarrow> int \<Rightarrow> (int \<times> int \<times> int) list \<Rightarrow> int list" where
  "dirs_of s my e x y ts = map (\<lambda>(dx, dy, d). d) (filter (\<lambda>(dx, dy, d). outflank s my e x y dx dy) ts)"

definition cell_dirs :: "othello \<Rightarrow> int \<Rightarrow> int \<Rightarrow> int \<Rightarrow> int list" where
  "cell_dirs s p x y =
     (if cell s x y \<noteq> 0 then [] else dirs_of s (color_of p) (- color_of p) x y scan_dirs)"

definition idx_dirs :: "othello \<Rightarrow> int \<Rightarrow> nat \<Rightarrow> int list" where
  "idx_dirs s p i = cell_dirs s p (int i mod W s) (int i div W s)"

definition dirs_spec :: "othello \<Rightarrow> int \<Rightarrow> int list list" where
  "dirs_spec s p = map (idx_dirs s p) [0 ..< nat (W s * H s)]"

subsection \<open>Engine states\<close>

text \<open>
  An engine state is well formed when, moreover, the mover is 0 or 1 and \<open>movable_dirs\<close>
  holds the two maps computed from the current board.
\<close>

definition engine_ok :: "othello \<Rightarrow> bool" where
  "engine_ok s =
     (length (field s) = nat (W s * H s) \<and>
      (player_index s = 0 \<or> player_index s = 1) \<and>
      map Some (movable_dirs s) = [calc_movable_dirs s 0, calc_movable_dirs s 1])"

text \<open>The states that \<open>call_reset\<close> and then \<open>call_step\<close> with actions of the action space produce.\<close>

inductive reachable :: "othello \<Rightarrow> bool" where
  reach_reset: "call_reset s0 = Some s \<Longrightarrow> reachable s"
| reach_step: "reachable s \<Longrightarrow> 0 \<le> a \<Longrightarrow> a < action_space_n s
     \<Longrightarrow> call_step s a = Some (s', obs, r1, r2, dn, nfo) \<Longrightarrow> reachable s'"

text \<open>
  The number of stones on a board; a player without a legal cell; the board that
  \<open>call_reset\<close> builds around the centre \<open>(cx, cy)\<close>; the relation between the board after
  the placement and a board on which some stones of colour \<open>e\<close> were recoloured \<open>my\<close>; and the
  tuple that \<open>call_step\<close> returns after a move, from the state after the flips and the two
  numbers of legal cells.
\<close>

definition count_nonempty :: "int list \<Rightarrow> int" where
  "count_nonempty f = int (length (filter (\<lambda>v. v \<noteq> 0) f))"

definition no_legal_cell :: "othello \<Rightarrow> int \<Rightarrow> bool" where
  "no_legal_cell s p = list_all (\<lambda>b. movable_at s p b = Some []) [0 .. action_space_n s - 1]"

definition opening_state :: "othello \<Rightarrow> int \<Rightarrow> int \<Rightarrow> othello" where
  "opening_state s0 cx cy =
     (let q = nat (W s0 * cy + cx);
          f = (replicate (nat (W s0 * H s0)) (0::int))
                [q := 1, q + nat (W s0) + 1 := 1, q + 1 := -1, q + nat (W s0) := -1]
      in s0\<lparr>action := 0, player_index := 0, field := f\<rparr>)"

definition flipped_from :: "int \<Rightarrow> int \<Rightarrow> int list \<Rightarrow> int list \<Rightarrow> bool" where
  "flipped_from e my f0 f =
     (length f = length f0 \<and> (\<forall>i<length f0. f ! i = f0 ! i \<or> (f0 ! i = e \<and> f ! i = my)))"

definition step_outcome :: "othello \<Rightarrow> int \<Rightarrow> int \<Rightarrow> step_result" where
  "step_outcome s1 en mn =
     (let p1_count = count_color 1 (field s1);
          p2_count = count_color (-1) (field s1);
          enemy_player = (if player_index s1 = 0 then 1 else 0)
      in if en = 0 \<and> mn = 0
         then (s1, field s1,
               (if p1_count > p2_count then 1 else if p1_count < p2_count then -1 else 0),
               (if p1_count > p2_count then -1 else if p1_count < p2_count then 1 else 0),
               True, [(''P1'', p1_count), (''P2'', p2_count)])
         else if en = 0 then (s1, field s1, 0, 0, False, [])
         else (s1\<lparr>player_index := enemy_player\<rparr>, field s1, 0, 0, False, []))"

subsection \<open>Search\<close>

text \<open>
  The board shapes on which the table product is defined; the value of the product; the
  score that a cut-off node gives a child; the score vector of a cut-off node; and the
  score that the node above a cut-off level gives an action.
\<close>

definition table_fits :: "othello \<Rightarrow> bool" where
  "table_fits s = ((W s = 8 \<longrightarrow> H s = 8) \<and> (W s = 6 \<longrightarrow> H s = 6))"

definition board_value :: "othello \<Rightarrow> int" where
  "board_value s =
     (if W s = 8 then sum_list (map2 (\<lambda>w v. w * v) evals8x8 (field s))
      else if W s = 6 then sum_list (map2 (\<lambda>w v. w * v) evals6x6 (field s))
      else 0)"

definition leaf_score :: "int \<Rightarrow> step_result \<Rightarrow> int" where
  "leaf_score p r =
     (case r of (child, obs, r1, r2, dn, nfo) \<Rightarrow>
        if dn then (if p = 0 then r1 * 500 else r2 * 500)
        else (if p \<noteq> 0 then - board_value child else board_value child))"

definition cutoff_scores :: "othello \<Rightarrow> int list" where
  "cutoff_scores env =
     map (\<lambda>a. if movable_at env (player_index env) a = Some [] then -999
               else (case call_step env a of
                       Some r \<Rightarrow> leaf_score (player_index env) r
                     | None \<Rightarrow> 0))
         [0 .. action_space_n env - 1]"

definition two_ply_score :: "othello \<Rightarrow> int \<Rightarrow> int" where
  "two_ply_score env a =
     (case call_step env a of
        Some (child, obs, r1, r2, dn, nfo) \<Rightarrow>
          if dn then (if player_index env = 0 then r1 * 500 else r2 * 500)
          else (if player_index env \<noteq> player_index child
                then - Max (set (cutoff_scores child)) else Max (set (cutoff_scores child)))
      | None \<Rightarrow> 0)"

subsection \<open>Concrete engines for the examples\<close>

text \<open>
  An engine before its first reset, the empty search state, and positions on boards of
  4x4, 3x1, 5x1, 6x6 and 8x6 cells.
\<close>

definition fresh :: "int \<Rightarrow> int \<Rightarrow> othello" where
  "fresh w h = \<lparr>W = w, H = h, player_index = 0, action = 0, field = [], movable_dirs = []\<rparr>"

definition empty_search :: search where
  "empty_search = \<lparr>cache = Map.empty, count = 0\<rparr>"

definition board44 :: othello where
  "board44 =
     \<lparr>W = 4, H = 4, player_index = 0, action = 0,
        field = [0, 0, 0, 0, 0, 1, -1, 0, 0, -1, 1, 0, 0, 0, 0, 0],
        movable_dirs =
          [[[], [], [2], [], [], [], [], [4], [6], [], [], [], [], [8], [], []],
           [[], [2], [], [], [6], [], [], [], [], [], [], [4], [], [], [8], []]]\<rparr>"

definition board31 :: othello where
  "board31 = \<lparr>W = 3, H = 1, player_index = 0, action = 0, field = [1, -1, 0],
      movable_dirs = [[[], [], [4]], [[], [], []]]\<rparr>"

definition board31_end :: othello where
  "board31_end = \<lparr>W = 3, H = 1, player_index = 0, action = 2, field = [1, 1, 1],
      movable_dirs = [[[], [], []], [[], [], []]]\<rparr>"

definition board51 :: othello where
  "board51 = \<lparr>W = 5, H = 1, player_index = 0, action = 0, field = [0, -1, 1, -1, 0],
      movable_dirs = [[[6], [], [], [], [4]], [[], [], [], [], []]]\<rparr>"

definition board51_pass :: othello where
  "board51_pass = \<lparr>W = 5, H = 1, player_index = 0, action = 0, field = [1, 1, 1, -1, 0],
      movable_dirs = [[[], [], [], [], [4]], [[], [], [], [], []]]\<rparr>"

definition board66 :: othello where
  "board66 =
     \<lparr>W = 6, H = 6, player_index = 0, action = 0, field = [0, 0, 0, 0, 0, 0, 0, 0, 0, 0,
      0, 0, 0, 0, 1, -1, 0, 0, 0, 0, -1, 1, 0, 0, 0, 0, 0, 0, 0, 0, 0, 0, 0, 0, 0, 0],
      movable_dirs = [[[], [], [], [], [], [], [], [], [], [2], [], [], [], [], [], [], [4], [],
      [], [6], [], [], [], [], [], [], [8], [], [], [], [], [], [], [], [], []], [[], [], [],
      [], [], [], [], [], [2], [], [], [], [], [6], [], [], [], [], [], [], [], [], [4], [], [],
      [], [], [8], [], [], [], [], [], [], [], []]]\<rparr>"

definition child66 :: othello where
  "child66 =
     \<lparr>W = 6, H = 6, player_index = 1, action = 16, field = [0, 0, 0, 0, 0, 0, 0, 0, 0,
      0, 0, 0, 0, 0, 1, 1, 1, 0, 0, 0, -1, 1, 0, 0, 0, 0, 0, 0, 0, 0, 0, 0, 0, 0, 0, 0],
      movable_dirs = [[[], [], [], [], [], [], [], [], [], [], [], [], [], [], [], [], [], [],
      [], [6], [], [], [], [], [], [9], [8], [], [], [], [], [], [], [], [], []], [[], [], [],
      [], [], [], [], [], [2], [], [1], [], [], [], [], [], [], [], [], [], [], [], [4], [], [],
      [], [], [], [], [], [], [], [], [], [], []]]\<rparr>"

definition grand66 :: othello where
  "grand66 =
     \<lparr>W = 6, H = 6, player_index = 0, action = 10, field = [0, 0, 0, 0, 0, 0, 0, 0, 0,
      0, -1, 0, 0, 0, 1, -1, 1, 0, 0, 0, -1, 1, 0, 0, 0, 0, 0, 0, 0, 0, 0, 0, 0, 0, 0, 0],
      movable_dirs = [[[], [], [], [], [2], [], [], [], [], [2], [], [], [], [], [], [], [], [],
      [], [6], [], [], [], [], [], [], [8], [], [], [], [], [], [], [], [], []], [[], [], [],
      [], [], [], [], [], [2], [], [], [], [], [6], [], [], [], [4], [], [], [], [], [8, 4], [],
      [], [], [], [8], [], [], [], [], [], [], [], []]]\<rparr>"

definition board86 :: othello where
  "board86 =
     \<lparr>W = 8, H = 6, player_index = 0, action = 0, field = [0, 0, 0, 0, 0, 0, 0, 0, 0, 0,
      0, 0, 0, 0, 0, 0, 0, 0, 0, 1, -1, 0, 0, 0, 0, 0, 0, -1, 1, 0, 0, 0, 0, 0, 0, 0, 0, 0, 0,
      0, 0, 0, 0, 0, 0, 0, 0, 0], movable_dirs = [[[], [], [], [], [], [], [], [], [], [], [],
      [], [2], [], [], [], [], [], [], [], [], [4], [], [], [], [], [6], [], [], [], [], [], [],
      [], [], [8], [], [], [], [], [], [], [], [], [], [], [], []], [[], [], [], [], [], [], [],
      [], [], [], [], [2], [], [], [], [], [], [], [6], [], [], [], [], [], [], [], [], [], [],
      [4], [], [], [], [], [], [], [8], [], [], [], [], [], [], [], [], [], [], []]]\<rparr>"

section \<open>The direction scanner\<close>

lemma py_get_nat: "i < length xs \<Longrightarrow> py_get xs (int i) = Some (xs ! i)"
  by (simp add: py_get_def py_index_def)

lemma py_get_in: "0 \<le> i \<Longrightarrow> i < int (length xs) \<Longrightarrow> py_get xs i = Some (xs ! nat i)"
  by (simp add: py_get_def py_index_def)

lemma py_set_in: "0 \<le> i \<Longrightarrow> i < int (length xs) \<Longrightarrow> py_set xs i v = Some (xs[nat i := v])"
  by (simp add: py_set_def py_index_def)

lemma pos_bounds:
  assumes "in_board s x y"
  shows "0 \<le> W s * y + x" and "W s * y + x < W s * H s"
proof -
  from assms have x: "0 \<le> x" "x < W s" and y: "0 \<le> y" "y < H s"
    by (simp_all add: in_board_def)
  have w: "0 < W s" using x by linarith
  have "0 \<le> W s * y" using w y by simp
  then show "0 \<le> W s * y + x" using x by linarith
  have "y + 1 \<le> H s" using y by linarith
  then have "W s * (y + 1) \<le> W s * H s" using w by (simp only: mult_le_cancel_left_pos)
  then show "W s * y + x < W s * H s" using x by (simp add: distrib_left)
qed

lemma get_field_cell:
  assumes "board_ok s"
  shows "get_field s x y = Some (cell s x y)"
proof (cases "in_board s x y")
  case True
  have "\<not> W s * y + x < 0" "W s * y + x < int (length (field s))"
    using pos_bounds[OF True] assms by (simp_all add: board_ok_def)
  then show ?thesis
    using True by (simp add: get_field_def cell_def in_board_def py_get_def py_index_def)
next
  case False
  then show ?thesis by (auto simp add: get_field_def cell_def in_board_def)
qed

lemma skip_enemy_spec:
  assumes ok: "board_ok s" and e: "e \<noteq> 9" and d: "unit_dir dx dy"
  shows "\<exists>k::nat. skip_enemy s e dx dy x y = Some (x + int k * dx, y + int k * dy)
           \<and> (\<forall>j<k. cell s (x + int j * dx) (y + int j * dy) = e)
           \<and> cell s (x + int k * dx) (y + int k * dy) \<noteq> e"
proof -
  define m where "m = (\<lambda>x y. nat (if dx = 1 then W s - x else if dx = -1 then x + 1
                                 else if dy = 1 then H s - y else y + 1))"
  show ?thesis
  proof (induction "m x y" arbitrary: x y rule: less_induct)
    case less
    show ?case
    proof (cases "cell s x y = e")
      case False
      then have "skip_enemy s e dx dy x y = Some (x, y)"
        by (subst skip_enemy.simps) (simp add: get_field_cell[OF ok])
      with False show ?thesis by (intro exI[of _ 0]) simp
    next
      case True
      with e have ib: "in_board s x y" by (auto simp: cell_def split: if_splits)
      have dec: "m (x + dx) (y + dy) < m x y"
        using ib d by (auto simp: m_def in_board_def unit_dir_def)
      from less[OF dec] obtain k where
        k: "skip_enemy s e dx dy (x + dx) (y + dy) = Some (x + dx + int k * dx, y + dy + int k * dy)"
           "\<forall>j<k. cell s (x + dx + int j * dx) (y + dy + int j * dy) = e"
           "cell s (x + dx + int k * dx) (y + dy + int k * dy) \<noteq> e"
        by blast
      have eq: "x + dx + int j * dx = x + int (Suc j) * dx" "y + dy + int j * dy = y + int (Suc j) * dy" for j
        by (simp_all add: algebra_simps)
      have "skip_enemy s e dx dy x y = Some (x + int (Suc k) * dx, y + int (Suc k) * dy)"
        using k(1) unfolding eq by (subst skip_enemy.simps) (simp add: get_field_cell[OF ok] True)
      moreover have "\<forall>j<Suc k. cell s (x + int j * dx) (y + int j * dy) = e"
      proof (intro allI impI)
        fix j assume "j < Suc k"
        show "cell s (x + int j * dx) (y + int j * dy) = e"
        proof (cases j)
          case 0 then show ?thesis using True by simp
        next
          case (Suc j')
          with \<open>j < Suc k\<close> have "j' < k" by simp
          with k(2) have "cell s (x + dx + int j' * dx) (y + dy + int j' * dy) = e" by blast
          then show ?thesis unfolding eq Suc .
        qed
      qed
      moreover have "cell s (x + int (Suc k) * dx) (y + int (Suc k) * dy) \<noteq> e"
        using k(3) unfolding eq .
      ultimately show ?thesis by blast
    qed
  qed
qed

lemma dir_movable_spec:
  assumes ok: "board_ok s" and e: "e \<noteq> 9" and me: "my \<noteq> e" and d: "unit_dir dx dy"
  shows "dir_movable s my e x y dx dy = Some (outflank s my e x y dx dy)"
proof (cases "cell s (x + dx) (y + dy) = e")
  case False
  then show ?thesis
    by (simp add: dir_movable_def get_field_cell[OF ok] outflank_def)
next
  case True
  from skip_enemy_spec[OF ok e d, of "x + dx + dx" "y + dy + dy"] obtain k where
    k: "skip_enemy s e dx dy (x + dx + dx) (y + dy + dy)
          = Some (x + dx + dx + int k * dx, y + dy + dy + int k * dy)"
       "\<forall>j<k. cell s (x + dx + dx + int j * dx) (y + dy + dy + int j * dy) = e"
       "cell s (x + dx + dx + int k * dx) (y + dy + dy + int k * dy) \<noteq> e"
    by blast
  have eq: "x + dx + dx + int j * dx = x + (int j + 2) * dx"
           "y + dy + dy + int j * dy = y + (int j + 2) * dy" for j
    by (simp_all add: algebra_simps)
  have run: "\<forall>j<k. cell s (x + (int j + 2) * dx) (y + (int j + 2) * dy) = e"
    and stop: "cell s (x + (int k + 2) * dx) (y + (int k + 2) * dy) \<noteq> e"
    using k(2,3) unfolding eq by blast+
  have res: "dir_movable s my e x y dx dy
               = Some (cell s (x + (int k + 2) * dx) (y + (int k + 2) * dy) = my)"
    using k(1) unfolding eq by (simp add: dir_movable_def get_field_cell[OF ok] True)
  have "(\<exists>k'::nat. (\<forall>j<k'. cell s (x + (int j + 2) * dx) (y + (int j + 2) * dy) = e)
            \<and> cell s (x + (int k' + 2) * dx) (y + (int k' + 2) * dy) = my)
        \<longleftrightarrow> cell s (x + (int k + 2) * dx) (y + (int k + 2) * dy) = my" (is "?L \<longleftrightarrow> ?R")
  proof
    assume ?R with run show ?L by blast
  next
    assume ?L
    then obtain k' where k': "\<forall>j<k'. cell s (x + (int j + 2) * dx) (y + (int j + 2) * dy) = e"
      "cell s (x + (int k' + 2) * dx) (y + (int k' + 2) * dy) = my" by blast
    have "\<not> k' < k" using run k'(2) me by auto
    moreover have "\<not> k < k'" using k'(1) stop by auto
    ultimately have "k' = k" by simp
    with k'(2) show ?R by simp
  qed
  then show ?thesis using True res by (simp add: outflank_def)
qed

lemma append_dir_spec:
  "0 \<le> p \<Longrightarrow> p < int (length dl) \<Longrightarrow> append_dir dl p d = Some (dl[nat p := dl ! nat p @ [d]])"
  by (simp add: append_dir_def py_get_def py_set_def py_index_def)

lemma scan_cell_spec:
  assumes ok: "board_ok s" and e: "e \<noteq> 9" and me: "my \<noteq> e"
    and p: "0 \<le> pos s x y" "pos s x y < int (length dl)"
    and ts: "\<forall>(dx, dy, d) \<in> set ts. unit_dir dx dy"
  shows "scan_cell s my e x y ts dl
           = Some (dl[nat (pos s x y) := dl ! nat (pos s x y) @ dirs_of s my e x y ts])"
  using p ts
proof (induction ts arbitrary: dl)
  case Nil
  then show ?case by (simp add: dirs_of_def)
next
  case (Cons t ts)
  obtain dx dy d where t: "t = (dx, dy, d)" by (cases t)
  from Cons.prems t have u: "unit_dir dx dy" and ts': "\<forall>(dx, dy, d) \<in> set ts. unit_dir dx dy"
    by auto
  let ?p = "nat (pos s x y)"
  have plt: "?p < length dl" using Cons.prems(1,2) by simp
  show ?case
  proof (cases "outflank s my e x y dx dy")
    case True
    have "scan_cell s my e x y (t # ts) dl
            = scan_cell s my e x y ts (dl[?p := dl ! ?p @ [d]])"
      using True Cons.prems(1,2)
      by (simp add: t dir_movable_spec[OF ok e me u] append_dir_spec)
    also have "\<dots> = Some ((dl[?p := dl ! ?p @ [d]])[?p := (dl[?p := dl ! ?p @ [d]]) ! ?p @ dirs_of s my e x y ts])"
      using Cons.prems(1,2) by (intro Cons.IH ts') simp_all
    also have "\<dots> = Some (dl[?p := dl ! ?p @ dirs_of s my e x y (t # ts)])"
      using True plt by (simp add: t dirs_of_def)
    finally show ?thesis .
  next
    case False
    have "scan_cell s my e x y (t # ts) dl = scan_cell s my e x y ts dl"
      using False by (simp add: t dir_movable_spec[OF ok e me u])
    also have "\<dots> = Some (dl[?p := dl ! ?p @ dirs_of s my e x y ts])"
      using Cons.prems(1,2) by (intro Cons.IH ts') simp_all
    also have "\<dots> = Some (dl[?p := dl ! ?p @ dirs_of s my e x y (t # ts)])"
      using False by (simp add: t dirs_of_def)
    finally show ?thesis .
  qed
qed

lemma scan_dirs_unit: "\<forall>(dx, dy, d) \<in> set scan_dirs. unit_dir dx dy"
  by (simp add: scan_dirs_def unit_dir_def)

lemma pos_div_mod:
  assumes "0 \<le> x" "x < W s"
  shows "(W s * y + x) div W s = y" and "(W s * y + x) mod W s = x"
  using assms by (simp_all add: div_pos_pos_trivial)

lemma color_of_facts: "color_of p \<noteq> 9" "- color_of p \<noteq> 9" "color_of p \<noteq> - color_of p"
  "color_of p \<noteq> 0"
  by (simp_all add: color_of_def)

lemma scan_row_spec:
  assumes ok: "board_ok s" and y: "0 \<le> y" "y < H s"
    and len: "length dl = nat (W s * H s)"
    and xs: "set xs \<subseteq> {0 ..< W s}" "distinct xs"
  shows "\<exists>dl'. scan_row s (color_of p) (- color_of p) y xs dl = Some dl' \<and> length dl' = length dl \<and>
           (\<forall>i<length dl. dl' ! i =
              (if int i div W s = y \<and> int i mod W s \<in> set xs then dl ! i @ idx_dirs s p i else dl ! i))"
  using len xs
proof (induction xs arbitrary: dl)
  case Nil
  then show ?case by simp
next
  case (Cons x xs)
  from Cons.prems have x: "0 \<le> x" "x < W s" and xn: "x \<notin> set xs"
    and xs': "set xs \<subseteq> {0 ..< W s}" "distinct xs" by auto
  have ib: "in_board s x y" using x y by (simp add: in_board_def)
  let ?q = "nat (pos s x y)"
  have pb: "0 \<le> pos s x y" "pos s x y < int (length dl)"
    using pos_bounds[OF ib] Cons.prems(1) by (simp_all add: pos_def)
  have qdm: "int ?q div W s = y" "int ?q mod W s = x"
    using pb(1) pos_div_mod[OF x, of y] by (simp_all add: pos_def)
  define dl1 where "dl1 = dl[?q := dl ! ?q @ cell_dirs s p x y]"
  have first: "(if cell s x y \<noteq> 0 then Some dl
                else scan_cell s (color_of p) (- color_of p) x y scan_dirs dl) = Some dl1"
  proof (cases "cell s x y \<noteq> 0")
    case True
    then show ?thesis by (simp add: dl1_def cell_dirs_def)
  next
    case False
    then show ?thesis
      using scan_cell_spec[OF ok color_of_facts(2) color_of_facts(3) pb scan_dirs_unit, of p]
      by (simp add: dl1_def cell_dirs_def)
  qed
  have len1: "length dl1 = nat (W s * H s)" using Cons.prems(1) by (simp add: dl1_def)
  from Cons.IH[OF len1 xs'] obtain dl' where
    r: "scan_row s (color_of p) (- color_of p) y xs dl1 = Some dl'" "length dl' = length dl1"
       "\<forall>i<length dl1. dl' ! i =
          (if int i div W s = y \<and> int i mod W s \<in> set xs then dl1 ! i @ idx_dirs s p i else dl1 ! i)"
    by blast
  have run: "scan_row s (color_of p) (- color_of p) y (x # xs) dl = Some dl'"
    using first r(1) by (simp add: get_field_cell[OF ok])
  have "dl' ! i = (if int i div W s = y \<and> int i mod W s \<in> set (x # xs)
                   then dl ! i @ idx_dirs s p i else dl ! i)" if i: "i < length dl" for i
  proof (cases "i = ?q")
    case True
    have "dl' ! i = dl1 ! i" using r(3) i xn qdm True by (simp add: dl1_def)
    also have "\<dots> = dl ! i @ cell_dirs s p x y" using i True by (simp add: dl1_def)
    finally show ?thesis using True qdm by (simp add: idx_dirs_def)
  next
    case False
    have neq: "\<not> (int i div W s = y \<and> int i mod W s = x)"
    proof
      assume a: "int i div W s = y \<and> int i mod W s = x"
      have "int i = W s * (int i div W s) + int i mod W s" by simp
      with a have "int i = pos s x y" by (simp add: pos_def)
      with False show False by simp
    qed
    have "dl1 ! i = dl ! i" using False by (simp add: dl1_def)
    with r(3) i neq show ?thesis by (auto simp: dl1_def)
  qed
  with run r(2) show ?case by (simp add: dl1_def)
qed

lemma scan_rows_spec:
  assumes ok: "board_ok s"
    and len: "length dl = nat (W s * H s)"
    and ys: "set ys \<subseteq> {0 ..< H s}" "distinct ys"
  shows "\<exists>dl'. scan_rows s (color_of p) (- color_of p) ys dl = Some dl' \<and> length dl' = length dl \<and>
           (\<forall>i<length dl. dl' ! i =
              (if int i div W s \<in> set ys \<and> int i mod W s \<in> {0 ..< W s}
               then dl ! i @ idx_dirs s p i else dl ! i))"
  using len ys
proof (induction ys arbitrary: dl)
  case Nil
  then show ?case by simp
next
  case (Cons y ys)
  from Cons.prems have y: "0 \<le> y" "y < H s" and yn: "y \<notin> set ys"
    and ys': "set ys \<subseteq> {0 ..< H s}" "distinct ys" by auto
  have xs: "set [0 .. W s - 1] \<subseteq> {0 ..< W s}" "distinct [0 .. W s - 1]" by auto
  from scan_row_spec[OF ok y Cons.prems(1) xs, of p] obtain dl1 where
    r1: "scan_row s (color_of p) (- color_of p) y [0 .. W s - 1] dl = Some dl1"
        "length dl1 = length dl"
        "\<forall>i<length dl. dl1 ! i =
           (if int i div W s = y \<and> int i mod W s \<in> set [0 .. W s - 1]
            then dl ! i @ idx_dirs s p i else dl ! i)"
    by blast
  have len1: "length dl1 = nat (W s * H s)" using r1(2) Cons.prems(1) by simp
  from Cons.IH[OF len1 ys'] obtain dl' where
    r: "scan_rows s (color_of p) (- color_of p) ys dl1 = Some dl'" "length dl' = length dl1"
       "\<forall>i<length dl1. dl' ! i =
          (if int i div W s \<in> set ys \<and> int i mod W s \<in> {0 ..< W s}
           then dl1 ! i @ idx_dirs s p i else dl1 ! i)"
    by blast
  have run: "scan_rows s (color_of p) (- color_of p) (y # ys) dl = Some dl'"
    using r1(1) r(1) by simp
  have "dl' ! i = (if int i div W s \<in> set (y # ys) \<and> int i mod W s \<in> {0 ..< W s}
                   then dl ! i @ idx_dirs s p i else dl ! i)" if i: "i < length dl" for i
  proof (cases "int i div W s = y")
    case True
    with yn have "dl' ! i = dl1 ! i" using r(3) i r1(2) by simp
    also have "\<dots> = (if int i mod W s \<in> {0 ..< W s} then dl ! i @ idx_dirs s p i else dl ! i)"
      using r1(3) i True by auto
    finally show ?thesis using True by simp
  next
    case False
    then have "dl1 ! i = dl ! i" using r1(3) i by simp
    then show ?thesis using r(3) i r1(2) False by simp
  qed
  with run r(2) r1(2) show ?case by simp
qed

lemma calc_movable_dirs_closed:
  assumes ok: "board_ok s"
  shows "calc_movable_dirs s p = Some (dirs_spec s p)"
proof -
  let ?n = "nat (W s * H s)"
  have ys: "set [0 .. H s - 1] \<subseteq> {0 ..< H s}" "distinct [0 .. H s - 1]" by auto
  have len: "length (replicate ?n ([]::int list)) = ?n" by simp
  from scan_rows_spec[OF ok len ys, of p] obtain dl' where
    r: "scan_rows s (color_of p) (- color_of p) [0 .. H s - 1] (replicate ?n []) = Some dl'"
       "length dl' = ?n"
       "\<forall>i<?n. dl' ! i =
          (if int i div W s \<in> set [0 .. H s - 1] \<and> int i mod W s \<in> {0 ..< W s}
           then replicate ?n [] ! i @ idx_dirs s p i else replicate ?n [] ! i)"
    by auto
  have "dl' ! i = idx_dirs s p i" if i: "i < ?n" for i
  proof (cases "in_board s (int i mod W s) (int i div W s)")
    case True
    then show ?thesis using r(3) i by (simp add: in_board_def)
  next
    case False
    then have "cell s (int i mod W s) (int i div W s) = 9" by (simp add: cell_def)
    then have "idx_dirs s p i = []" by (simp add: idx_dirs_def cell_dirs_def)
    moreover have "dl' ! i = []" using r(3) i False by (auto simp: in_board_def)
    ultimately show ?thesis by simp
  qed
  then have "dl' = dirs_spec s p"
    using r(2) by (intro nth_equalityI) (simp_all add: dirs_spec_def)
  with r(1) show ?thesis by (simp add: calc_movable_dirs_def Let_def)
qed


lemma set_dirs_of:
  "d \<in> set (dirs_of s my e x y ts) \<longleftrightarrow> (\<exists>dx dy. (dx, dy, d) \<in> set ts \<and> outflank s my e x y dx dy)"
  by (auto simp: dirs_of_def image_iff)

lemma dirs_spec_nth:
  assumes "in_board s x y"
  shows "dirs_spec s p ! nat (pos s x y) = cell_dirs s p x y"
proof -
  from assms have x: "0 \<le> x" "x < W s" by (simp_all add: in_board_def)
  have b: "0 \<le> pos s x y" "pos s x y < W s * H s"
    using pos_bounds[OF assms] by (simp_all add: pos_def)
  then have "nat (pos s x y) < nat (W s * H s)" by simp
  then have "dirs_spec s p ! nat (pos s x y) = idx_dirs s p (nat (pos s x y))"
    by (simp add: dirs_spec_def)
  also have "\<dots> = cell_dirs s p x y"
    using b(1) pos_div_mod[OF x, of y] by (simp add: idx_dirs_def pos_def)
  finally show ?thesis .
qed

lemma movable_at_nth:
  assumes "py_get (movable_dirs s) p = Some dl" "0 \<le> a" "a < int (length dl)"
  shows "movable_at s p a = Some (dl ! nat a)"
  using assms by (simp add: movable_at_def py_get_in)

lemma invalid_loop_spec:
  assumes "py_get (movable_dirs s) p = Some dl" "set as \<subseteq> {0 ..< int (length dl)}"
  shows "invalid_loop s p as = Some (filter (\<lambda>a. dl ! nat a = []) as)"
  using assms(2)
proof (induction as)
  case Nil
  show ?case by simp
next
  case (Cons a as)
  then have "movable_at s p a = Some (dl ! nat a)"
    using movable_at_nth[OF assms(1), of a] by simp
  with Cons show ?case by simp
qed

lemma get_invalid_actions_spec:
  assumes "py_get (movable_dirs s) p = Some dl" "length dl = nat (W s * H s)"
  shows "get_invalid_actions s p = Some (filter (\<lambda>a. dl ! nat a = []) [0 .. W s * H s - 1])"
proof -
  have "set [0 .. H s * W s - 1] \<subseteq> {0 ..< int (length dl)}"
    using assms(2) by (auto simp: mult.commute)
  from invalid_loop_spec[OF assms(1) this] show ?thesis
    by (simp add: get_invalid_actions_def mult.commute)
qed

text \<open>
  C1. On every well-formed board and for every player, \<open>calc_movable_dirs\<close> returns a map
  with one entry per cell. The entry of an occupied cell is empty. The entry of an empty
  cell holds the direction \<open>d\<close> exactly when the neighbour in that direction has the
  opponent's colour and, from the cell after it, zero or more further opponent stones are
  followed by a stone of the mover's colour (the sentinel of an off-board position and an
  empty cell end the scan without success). In an engine that holds this map for a player,
  the illegal actions of that player are exactly the cells whose entry is empty.
\<close>

theorem calc_movable_dirs_legal_directions:
  assumes "length (field s) = nat (W s * H s)"
  shows "\<exists>dl. calc_movable_dirs s p = Some dl \<and> length dl = nat (W s * H s) \<and>
     (\<forall>x y. 0 \<le> x \<and> x < W s \<and> 0 \<le> y \<and> y < H s \<longrightarrow>
        (get_field s x y \<noteq> Some 0 \<longrightarrow> dl ! nat (pos s x y) = []) \<and>
        (get_field s x y = Some 0 \<longrightarrow>
           (\<forall>d. d \<in> set (dl ! nat (pos s x y)) \<longleftrightarrow>
              (\<exists>dx dy. (dx, dy, d) \<in> set scan_dirs \<and>
                 get_field s (x + dx) (y + dy) = Some (- color_of p) \<and>
                 (\<exists>k::nat.
                    (\<forall>j<k. get_field s (x + (int j + 2) * dx) (y + (int j + 2) * dy)
                              = Some (- color_of p)) \<and>
                    get_field s (x + (int k + 2) * dx) (y + (int k + 2) * dy)
                      = Some (color_of p)))))) \<and>
     (\<forall>s' q. W s' = W s \<and> H s' = H s \<and> py_get (movable_dirs s') q = Some dl \<longrightarrow>
        (\<exists>inv. get_invalid_actions s' q = Some inv \<and>
           (\<forall>a. 0 \<le> a \<and> a < W s * H s \<longrightarrow> (a \<in> set inv \<longleftrightarrow> dl ! nat a = []))))"
proof -
  have ok: "board_ok s" using assms by (simp add: board_ok_def)
  note gf = get_field_cell[OF ok]
  have cells: "(get_field s x y \<noteq> Some 0 \<longrightarrow> dirs_spec s p ! nat (pos s x y) = []) \<and>
        (get_field s x y = Some 0 \<longrightarrow>
           (\<forall>d. d \<in> set (dirs_spec s p ! nat (pos s x y)) \<longleftrightarrow>
              (\<exists>dx dy. (dx, dy, d) \<in> set scan_dirs \<and>
                 get_field s (x + dx) (y + dy) = Some (- color_of p) \<and>
                 (\<exists>k::nat.
                    (\<forall>j<k. get_field s (x + (int j + 2) * dx) (y + (int j + 2) * dy)
                              = Some (- color_of p)) \<and>
                    get_field s (x + (int k + 2) * dx) (y + (int k + 2) * dy)
                      = Some (color_of p)))))"
    if "0 \<le> x \<and> x < W s \<and> 0 \<le> y \<and> y < H s" for x y
  proof -
    from that have ib: "in_board s x y" by (simp add: in_board_def)
    show ?thesis
      unfolding dirs_spec_nth[OF ib] gf
      by (simp add: cell_dirs_def set_dirs_of outflank_def)
  qed
  have inv: "\<exists>inv. get_invalid_actions s' q = Some inv \<and>
           (\<forall>a. 0 \<le> a \<and> a < W s * H s \<longrightarrow> (a \<in> set inv \<longleftrightarrow> dirs_spec s p ! nat a = []))"
    if "W s' = W s \<and> H s' = H s \<and> py_get (movable_dirs s') q = Some (dirs_spec s p)" for s' q
  proof -
    have "length (dirs_spec s p) = nat (W s' * H s')" using that by (simp add: dirs_spec_def)
    from get_invalid_actions_spec[OF _ this, of q] that show ?thesis by auto
  qed
  show ?thesis
    using calc_movable_dirs_closed[OF ok, of p] cells inv
    by (intro exI[of _ "dirs_spec s p"]) (simp add: dirs_spec_def)
qed


theorem calc_movable_dirs_legal_directions_witness:
  "length (field board44) = nat (W board44 * H board44) \<and>
   (0::int) \<le> 2 \<and> 2 < W board44 \<and> (0::int) \<le> 0 \<and> 0 < H board44 \<and>
   get_field board44 2 0 = Some 0 \<and>
   (\<exists>dl. calc_movable_dirs board44 0 = Some dl \<and> length dl = nat (W board44 * H board44) \<and>
      (\<forall>d. d \<in> set (dl ! nat (pos board44 2 0)) \<longleftrightarrow>
         (\<exists>dx dy. (dx, dy, d) \<in> set scan_dirs \<and>
            get_field board44 (2 + dx) (0 + dy) = Some (- color_of 0) \<and>
            (\<exists>k::nat.
               (\<forall>j<k. get_field board44 (2 + (int j + 2) * dx) (0 + (int j + 2) * dy)
                         = Some (- color_of 0)) \<and>
               get_field board44 (2 + (int k + 2) * dx) (0 + (int k + 2) * dy)
                 = Some (color_of 0)))))"
proof -
  have h: "length (field board44) = nat (W board44 * H board44)"
    by (simp add: board44_def)
  have c: "(0::int) \<le> 2 \<and> 2 < W board44 \<and> (0::int) \<le> 0 \<and> 0 < H board44"
    by (simp add: board44_def)
  have e: "get_field board44 2 0 = Some 0"
    by (simp add: board44_def get_field_def py_get_def py_index_def)
  from calc_movable_dirs_legal_directions[OF h, of 0] obtain dl where
    dl: "calc_movable_dirs board44 0 = Some dl" "length dl = nat (W board44 * H board44)"
    and cells: "\<forall>x y. 0 \<le> x \<and> x < W board44 \<and> 0 \<le> y \<and> y < H board44 \<longrightarrow>
        (get_field board44 x y \<noteq> Some 0 \<longrightarrow> dl ! nat (pos board44 x y) = []) \<and>
        (get_field board44 x y = Some 0 \<longrightarrow>
           (\<forall>d. d \<in> set (dl ! nat (pos board44 x y)) \<longleftrightarrow>
              (\<exists>dx dy. (dx, dy, d) \<in> set scan_dirs \<and>
                 get_field board44 (x + dx) (y + dy) = Some (- color_of 0) \<and>
                 (\<exists>k::nat.
                    (\<forall>j<k. get_field board44 (x + (int j + 2) * dx) (y + (int j + 2) * dy)
                              = Some (- color_of 0)) \<and>
                    get_field board44 (x + (int k + 2) * dx) (y + (int k + 2) * dy)
                      = Some (color_of 0)))))"
    by blast
  from cells[rule_format, of 2 0] c e have
    "\<forall>d. d \<in> set (dl ! nat (pos board44 2 0)) \<longleftrightarrow>
         (\<exists>dx dy. (dx, dy, d) \<in> set scan_dirs \<and>
            get_field board44 (2 + dx) (0 + dy) = Some (- color_of 0) \<and>
            (\<exists>k::nat.
               (\<forall>j<k. get_field board44 (2 + (int j + 2) * dx) (0 + (int j + 2) * dy)
                         = Some (- color_of 0)) \<and>
               get_field board44 (2 + (int k + 2) * dx) (0 + (int k + 2) * dy)
                 = Some (color_of 0)))"
    by blast
  with h c e dl show ?thesis by blast
qed

section \<open>Reset\<close>

lemma filter_update_count:
  "i < length xs \<Longrightarrow>
     length (filter P (xs[i := v])) + (if P (xs ! i) then 1 else 0)
       = length (filter P xs) + (if P v then 1 else 0)"
proof (induction xs arbitrary: i)
  case Nil
  then show ?case by simp
next
  case (Cons x xs)
  show ?case
  proof (cases i)
    case 0
    then show ?thesis by simp
  next
    case (Suc j)
    with Cons.prems have "j < length xs" by simp
    from Cons.IH[OF this] Suc show ?thesis by simp
  qed
qed

lemma py_set_nat: "i < length xs \<Longrightarrow> py_set xs (int i) v = Some (xs[i := v])"
  by (simp add: py_set_def py_index_def)

lemma pos_inj:
  assumes "in_board s x y" "in_board s x' y'" "W s * y + x = W s * y' + x'"
  shows "x = x' \<and> y = y'"
proof -
  from assms(1,2) have a: "0 \<le> x" "x < W s" and b: "0 \<le> x'" "x' < W s"
    by (simp_all add: in_board_def)
  from pos_div_mod[OF a, of y] pos_div_mod[OF b, of y'] assms(3) show ?thesis by simp
qed

lemma reset_body:
  assumes cxb: "0 \<le> cx" "cx + 1 < W s0" and cyb: "0 \<le> cy" "cy + 1 < H s0"
  defines "z \<equiv> s0\<lparr>action := 0, player_index := 0, field := replicate (nat (W s0 * H s0)) 0\<rparr>"
  defines "s1 \<equiv> opening_state s0 cx cy"
  shows "do { s \<leftarrow> set_field z cx cy 1;
              s \<leftarrow> set_field s (cx + 1) (cy + 1) 1;
              s \<leftarrow> set_field s (cx + 1) cy (-1);
              s \<leftarrow> set_field s cx (cy + 1) (-1);
              d0 \<leftarrow> calc_movable_dirs s 0;
              d1 \<leftarrow> calc_movable_dirs s 1;
              Some (s\<lparr>movable_dirs := [d0, d1]\<rparr>) }
           = Some (s1\<lparr>movable_dirs := [dirs_spec s1 0, dirs_spec s1 1]\<rparr>)"
    and "nat (W s0 * cy + cx) + nat (W s0) + 1 < nat (W s0 * H s0)"
proof -
  define q where "q = nat (W s0 * cy + cx)"
  have w: "2 \<le> W s0" using cxb by linarith
  have ib: "in_board z cx cy" "in_board z (cx + 1) (cy + 1)"
    using cxb cyb by (simp_all add: in_board_def z_def)
  have pb: "0 \<le> W s0 * cy + cx" "W s0 * (cy + 1) + (cx + 1) < W s0 * H s0"
    using pos_bounds[OF ib(1)] pos_bounds[OF ib(2)] by (simp_all add: z_def)
  have i1: "W s0 * cy + cx = int q" using pb(1) by (simp add: q_def)
  have i2: "W s0 * (cy + 1) + (cx + 1) = int (q + nat (W s0) + 1)"
    using pb(1) w by (simp add: q_def algebra_simps)
  have i3: "W s0 * cy + (cx + 1) = int (q + 1)" using pb(1) by (simp add: q_def)
  have i4: "W s0 * (cy + 1) + cx = int (q + nat (W s0))"
    using pb(1) w by (simp add: q_def algebra_simps)
  have lt: "q + nat (W s0) + 1 < nat (W s0 * H s0)" using pb(2) unfolding i2 by linarith
  then show "nat (W s0 * cy + cx) + nat (W s0) + 1 < nat (W s0 * H s0)" by (simp add: q_def)
  let ?n = "nat (W s0 * H s0)"
  have s1: "s1 = z\<lparr>field := (replicate ?n 0)[q := 1, q + nat (W s0) + 1 := 1, q + 1 := -1,
                                  q + nat (W s0) := -1]\<rparr>"
    by (simp add: s1_def opening_state_def Let_def q_def z_def)
  have st1: "set_field z cx cy 1 = Some (z\<lparr>field := (replicate ?n 0)[q := 1]\<rparr>)"
    using lt unfolding set_field_def by (simp add: i1 py_set_nat z_def)
  have st2: "set_field (z\<lparr>field := (replicate ?n 0)[q := 1]\<rparr>) (cx + 1) (cy + 1) 1
            = Some (z\<lparr>field := (replicate ?n 0)[q := 1, q + nat (W s0) + 1 := 1]\<rparr>)"
    using lt unfolding set_field_def
    by (simp add: i2 py_set_nat z_def del: of_nat_add of_nat_Suc)
  have st3: "set_field (z\<lparr>field := (replicate ?n 0)[q := 1, q + nat (W s0) + 1 := 1]\<rparr>) (cx + 1) cy (-1)
            = Some (z\<lparr>field := (replicate ?n 0)[q := 1, q + nat (W s0) + 1 := 1, q + 1 := -1]\<rparr>)"
    using lt unfolding set_field_def
    by (simp add: i3 py_set_nat z_def del: of_nat_add of_nat_Suc)
  have st4: "set_field (z\<lparr>field := (replicate ?n 0)[q := 1, q + nat (W s0) + 1 := 1, q + 1 := -1]\<rparr>)
               cx (cy + 1) (-1) = Some s1"
    using lt unfolding set_field_def s1
    by (simp add: i4 py_set_nat z_def del: of_nat_add of_nat_Suc)
  have ok1: "board_ok s1" by (simp add: board_ok_def s1 z_def)
  show "do { s \<leftarrow> set_field z cx cy 1;
              s \<leftarrow> set_field s (cx + 1) (cy + 1) 1;
              s \<leftarrow> set_field s (cx + 1) cy (-1);
              s \<leftarrow> set_field s cx (cy + 1) (-1);
              d0 \<leftarrow> calc_movable_dirs s 0;
              d1 \<leftarrow> calc_movable_dirs s 1;
              Some (s\<lparr>movable_dirs := [d0, d1]\<rparr>) }
           = Some (s1\<lparr>movable_dirs := [dirs_spec s1 0, dirs_spec s1 1]\<rparr>)"
    by (simp only: st1 st2 st3 st4 calc_movable_dirs_closed[OF ok1] Option.bind.simps)
qed

lemma call_reset_spec:
  assumes w: "2 \<le> W s0" and h: "2 \<le> H s0"
  shows "call_reset s0 = Some ((opening_state s0 (W s0 div 2 - 1) (H s0 div 2 - 1))
           \<lparr>movable_dirs := [dirs_spec (opening_state s0 (W s0 div 2 - 1) (H s0 div 2 - 1)) 0,
                             dirs_spec (opening_state s0 (W s0 div 2 - 1) (H s0 div 2 - 1)) 1]\<rparr>)"
proof -
  have b: "0 \<le> W s0 div 2 - 1" "W s0 div 2 - 1 + 1 < W s0"
          "0 \<le> H s0 div 2 - 1" "H s0 div 2 - 1 + 1 < H s0"
    using w h by simp_all
  have n0: "\<not> W s0 * H s0 < 0" using w h by (simp add: mult_less_0_iff)
  have ht: "half_trunc (W s0) = W s0 div 2" "half_trunc (H s0) = H s0 div 2"
    using w h by (simp_all add: half_trunc_def)
  show ?thesis
    using reset_body(1)[OF b] n0 by (simp add: call_reset_def Let_def ht)
qed

lemma cell_cong:
  assumes "W s = W s'" "H s = H s'" "field s = field s'"
  shows "cell s = cell s'"
  using assms by (intro ext) (simp add: cell_def in_board_def)

lemma dirs_spec_cong:
  assumes "W s = W s'" "H s = H s'" "field s = field s'"
  shows "dirs_spec s p = dirs_spec s' p"
  using assms cell_cong[OF assms]
  by (simp add: dirs_spec_def idx_dirs_def cell_dirs_def dirs_of_def outflank_def)

lemma four_updates_count:
  assumes d: "distinct [a, b, c, d]" and n: "a < n" "b < n" "c < n" "d < n" and z: "\<not> P z"
  shows "length (filter P ((replicate n z)[a := va, b := vb, c := vc, d := vd]))
           = (if P va then 1 else 0) + (if P vb then 1 else 0) + (if P vc then 1 else 0)
             + (if P vd then 1 else (0::nat))"
proof -
  let ?x0 = "replicate n z"
  let ?x1 = "?x0[a := va]"
  let ?x2 = "?x1[b := vb]"
  let ?x3 = "?x2[c := vc]"
  have l0: "length (filter P ?x0) = 0" using z by simp
  have "length (filter P ?x1) + (if P (?x0 ! a) then 1 else 0)
          = length (filter P ?x0) + (if P va then 1 else 0)"
    using n by (intro filter_update_count) simp
  then have l1: "length (filter P ?x1) = (if P va then 1 else 0)" using z n l0 by simp
  have "length (filter P ?x2) + (if P (?x1 ! b) then 1 else 0)
          = length (filter P ?x1) + (if P vb then 1 else 0)"
    using n by (intro filter_update_count) simp
  moreover have "?x1 ! b = z" using d n by simp
  ultimately have l2: "length (filter P ?x2) = (if P va then 1 else 0) + (if P vb then 1 else 0)"
    using z l1 by simp
  have "length (filter P ?x3) + (if P (?x2 ! c) then 1 else 0)
          = length (filter P ?x2) + (if P vc then 1 else 0)"
    using n by (intro filter_update_count) simp
  moreover have "?x2 ! c = z" using d n by simp
  ultimately have l3: "length (filter P ?x3)
      = (if P va then 1 else 0) + (if P vb then 1 else 0) + (if P vc then 1 else 0)"
    using z l2 by simp
  have "length (filter P (?x3[d := vd])) + (if P (?x3 ! d) then 1 else 0)
          = length (filter P ?x3) + (if P vd then 1 else 0)"
    using n by (intro filter_update_count) simp
  moreover have "?x3 ! d = z" using d n by simp
  ultimately show ?thesis using z l3 by simp
qed

text \<open>
  C8. For even \<open>W, H \<ge> 2\<close>, \<open>call_reset\<close> returns an engine of the same dimensions with player
  0 to move. The central 2x2 block holds player 0's colour (1) on the diagonal
  \<open>(W/2 - 1, H/2 - 1), (W/2, H/2)\<close> and player 1's colour (-1) on the other diagonal; every
  other cell is empty, so the board has four stones, two of each colour; and
  \<open>movable_dirs\<close> holds the maps computed for player 0 and player 1 on that board.
\<close>

theorem call_reset_opening:
  assumes "2 \<le> W s0" "even (W s0)" "2 \<le> H s0" "even (H s0)"
  shows "\<exists>s. call_reset s0 = Some s \<and> W s = W s0 \<and> H s = H s0 \<and> player_index s = 0 \<and>
     length (field s) = nat (W s0 * H s0) \<and>
     get_field s (W s0 div 2 - 1) (H s0 div 2 - 1) = Some 1 \<and>
     get_field s (W s0 div 2) (H s0 div 2) = Some 1 \<and>
     get_field s (W s0 div 2) (H s0 div 2 - 1) = Some (-1) \<and>
     get_field s (W s0 div 2 - 1) (H s0 div 2) = Some (-1) \<and>
     (\<forall>x y. 0 \<le> x \<and> x < W s0 \<and> 0 \<le> y \<and> y < H s0 \<and>
        (x, y) \<notin> {(W s0 div 2 - 1, H s0 div 2 - 1), (W s0 div 2, H s0 div 2),
                   (W s0 div 2, H s0 div 2 - 1), (W s0 div 2 - 1, H s0 div 2)}
        \<longrightarrow> get_field s x y = Some 0) \<and>
     count_nonempty (field s) = 4 \<and> count_color 1 (field s) = 2 \<and>
     count_color (-1) (field s) = 2 \<and>
     map Some (movable_dirs s) = [calc_movable_dirs s 0, calc_movable_dirs s 1]"
proof -
  define cx cy where "cx = W s0 div 2 - 1" and "cy = H s0 div 2 - 1"
  define q where "q = nat (W s0 * cy + cx)"
  define w where "w = nat (W s0)"
  define n where "n = nat (W s0 * H s0)"
  define f where "f = (replicate n (0::int))[q := 1, q + w + 1 := 1, q + 1 := -1, q + w := -1]"
  define s1 where "s1 = opening_state s0 cx cy"
  define s where "s = s1\<lparr>movable_dirs := [dirs_spec s1 0, dirs_spec s1 1]\<rparr>"
  have b: "0 \<le> cx" "cx + 1 < W s0" "0 \<le> cy" "cy + 1 < H s0"
    using assms by (simp_all add: cx_def cy_def)
  have w2: "2 \<le> w" using assms(1) by (simp add: w_def)
  have lt: "q + w + 1 < n" using reset_body(2)[OF b] by (simp add: q_def w_def n_def)
  have s1f: "field s1 = f" "W s1 = W s0" "H s1 = H s0" "player_index s1 = 0"
    by (simp_all add: s1_def opening_state_def Let_def f_def q_def w_def n_def)
  have sf: "field s = f" "W s = W s0" "H s = H s0" "player_index s = 0"
    "movable_dirs s = [dirs_spec s1 0, dirs_spec s1 1]"
    using s1f by (simp_all add: s_def)
  have lf: "length f = n" by (simp add: f_def)
  have ok1: "board_ok s1" using s1f lf by (simp add: board_ok_def n_def)
  have ok: "board_ok s" using sf lf by (simp add: board_ok_def n_def)
  have run: "call_reset s0 = Some s"
    using call_reset_spec[OF assms(1,3)] by (simp add: s_def s1_def cx_def cy_def)
  have calc: "calc_movable_dirs s p = Some (dirs_spec s1 p)" for p
    using calc_movable_dirs_closed[OF ok, of p] dirs_spec_cong[of s s1 p] sf s1f by simp
  have d4: "distinct [q, q + w + 1, q + 1, q + w]" using w2 by simp
  have n4: "q < n" "q + w + 1 < n" "q + 1 < n" "q + w < n" using lt w2 by simp_all
  have c0: "count_nonempty f = 4"
    using four_updates_count[OF d4 n4, of "\<lambda>v::int. v \<noteq> 0" 0 1 1 "-1" "-1"]
    by (simp add: count_nonempty_def f_def)
  have c1: "count_color 1 f = 2"
    using four_updates_count[OF d4 n4, of "\<lambda>v::int. v = 1" 0 1 1 "-1" "-1"]
    by (simp add: count_color_def f_def)
  have c2: "count_color (-1) f = 2"
    using four_updates_count[OF d4 n4, of "\<lambda>v::int. v = -1" 0 1 1 "-1" "-1"]
    by (simp add: count_color_def f_def)
  have ibs: "in_board s cx cy" "in_board s (cx + 1) (cy + 1)" "in_board s (cx + 1) cy"
    "in_board s cx (cy + 1)"
    using b sf by (simp_all add: in_board_def)
  have pb: "0 \<le> W s0 * cy + cx" using pos_bounds(1)[OF ibs(1)] sf by simp
  have ix: "nat (W s0 * cy + cx) = q" "nat (W s0 * (cy + 1) + (cx + 1)) = q + w + 1"
    "nat (W s0 * cy + (cx + 1)) = q + 1" "nat (W s0 * (cy + 1) + cx) = q + w"
    using pb assms(1) by (simp_all add: q_def w_def algebra_simps nat_add_distrib)
  have fv: "f ! q = 1" "f ! (q + w + 1) = 1" "f ! (q + 1) = -1" "f ! (q + w) = -1"
    using n4 w2 by (simp_all add: f_def)
  have g1: "get_field s cx cy = Some 1" "get_field s (cx + 1) (cy + 1) = Some 1"
    "get_field s (cx + 1) cy = Some (-1)" "get_field s cx (cy + 1) = Some (-1)"
    using ibs fv by (simp_all add: get_field_cell[OF ok] cell_def sf ix)
  have rest: "get_field s x y = Some 0"
    if xy: "0 \<le> x \<and> x < W s0 \<and> 0 \<le> y \<and> y < H s0 \<and>
        (x, y) \<notin> {(cx, cy), (cx + 1, cy + 1), (cx + 1, cy), (cx, cy + 1)}" for x y
  proof -
    have ib: "in_board s x y" using xy sf by (simp add: in_board_def)
    let ?i = "nat (W s0 * y + x)"
    have i0: "0 \<le> W s0 * y + x" and il: "?i < n"
      using pos_bounds[OF ib] sf by (simp_all add: n_def)
    have ne: "?i \<noteq> q" "?i \<noteq> q + w + 1" "?i \<noteq> q + 1" "?i \<noteq> q + w"
    proof -
      have "W s0 * y + x \<noteq> W s0 * cy + cx"
        using pos_inj[OF ib ibs(1)] xy sf by auto
      then show "?i \<noteq> q" using i0 pb unfolding ix(1)[symmetric] by simp
      have "W s0 * y + x \<noteq> W s0 * (cy + 1) + (cx + 1)"
        using pos_inj[OF ib ibs(2)] xy sf by auto
      moreover have "0 \<le> W s0 * (cy + 1) + (cx + 1)" using pos_bounds(1)[OF ibs(2)] sf by simp
      ultimately show "?i \<noteq> q + w + 1" using i0 unfolding ix(2)[symmetric] by simp
      have "W s0 * y + x \<noteq> W s0 * cy + (cx + 1)"
        using pos_inj[OF ib ibs(3)] xy sf by auto
      moreover have "0 \<le> W s0 * cy + (cx + 1)" using pos_bounds(1)[OF ibs(3)] sf by simp
      ultimately show "?i \<noteq> q + 1" using i0 unfolding ix(3)[symmetric] by simp
      have "W s0 * y + x \<noteq> W s0 * (cy + 1) + cx"
        using pos_inj[OF ib ibs(4)] xy sf by auto
      moreover have "0 \<le> W s0 * (cy + 1) + cx" using pos_bounds(1)[OF ibs(4)] sf by simp
      ultimately show "?i \<noteq> q + w" using i0 unfolding ix(4)[symmetric] by simp
    qed
    have "f ! ?i = 0" using ne il by (simp add: f_def)
    then show ?thesis using ib by (simp add: get_field_cell[OF ok] cell_def sf)
  qed
  have cxe: "cx + 1 = W s0 div 2" "cy + 1 = H s0 div 2" by (simp_all add: cx_def cy_def)
  have "call_reset s0 = Some s \<and> W s = W s0 \<and> H s = H s0 \<and> player_index s = 0 \<and>
     length (field s) = nat (W s0 * H s0) \<and>
     get_field s cx cy = Some 1 \<and>
     get_field s (cx + 1) (cy + 1) = Some 1 \<and>
     get_field s (cx + 1) cy = Some (-1) \<and>
     get_field s cx (cy + 1) = Some (-1) \<and>
     (\<forall>x y. 0 \<le> x \<and> x < W s0 \<and> 0 \<le> y \<and> y < H s0 \<and>
        (x, y) \<notin> {(cx, cy), (cx + 1, cy + 1), (cx + 1, cy), (cx, cy + 1)}
        \<longrightarrow> get_field s x y = Some 0) \<and>
     count_nonempty (field s) = 4 \<and> count_color 1 (field s) = 2 \<and>
     count_color (-1) (field s) = 2 \<and>
     map Some (movable_dirs s) = [calc_movable_dirs s 0, calc_movable_dirs s 1]"
    using run sf lf g1 rest c0 c1 c2 calc by (simp add: n_def)
  then show ?thesis unfolding cxe unfolding cx_def cy_def by (intro exI[of _ s])
qed

lemma call_reset_fresh44: "call_reset (fresh 4 4) = Some board44"
  by code_simp

theorem call_reset_opening_witness:
  "2 \<le> W (fresh 4 4) \<and> even (W (fresh 4 4)) \<and> 2 \<le> H (fresh 4 4) \<and> even (H (fresh 4 4)) \<and>
   call_reset (fresh 4 4) = Some board44 \<and> player_index board44 = 0 \<and>
   get_field board44 1 1 = Some 1 \<and> get_field board44 2 2 = Some 1 \<and>
   get_field board44 2 1 = Some (-1) \<and> get_field board44 1 2 = Some (-1) \<and>
   count_nonempty (field board44) = 4 \<and> count_color 1 (field board44) = 2 \<and>
   count_color (-1) (field board44) = 2 \<and>
   map Some (movable_dirs board44) = [calc_movable_dirs board44 0, calc_movable_dirs board44 1]"
proof -
  have h: "2 \<le> W (fresh 4 4)" "even (W (fresh 4 4))" "2 \<le> H (fresh 4 4)" "even (H (fresh 4 4))"
    by (simp_all add: fresh_def)
  have d: "W (fresh 4 4) div 2 = 2" "H (fresh 4 4) div 2 = 2" by (simp_all add: fresh_def)
  from call_reset_opening[OF h] h show ?thesis
    unfolding d call_reset_fresh44 by (elim exE conjE) simp
qed

section \<open>Illegal selections\<close>

text \<open>
  C3. When the entry of the chosen action in the mover's map is empty, \<open>call_step\<close> returns at
  once with \<open>done = True\<close>, an empty info dictionary and the untouched board; the rewards are
  \<open>(-1, 0)\<close> when the mover is player 0 and \<open>(0, -1)\<close> otherwise, whatever the board holds.
\<close>

theorem illegal_selection_rewards:
  assumes "movable_at s (player_index s) a = Some []"
  shows "(player_index s = 0 \<longrightarrow>
            call_step s a = Some (s\<lparr>action := a\<rparr>, field s, -1, 0, True, [])) \<and>
         (player_index s \<noteq> 0 \<longrightarrow>
            call_step s a = Some (s\<lparr>action := a\<rparr>, field s, 0, -1, True, []))"
proof -
  have "movable_at (s\<lparr>action := a\<rparr>) (player_index s) a = Some []"
    using assms by (simp add: movable_at_def)
  then have m: "movable_at (s\<lparr>action := a\<rparr>) (player_index (s\<lparr>action := a\<rparr>)) a = Some []"
    by simp
  show ?thesis unfolding call_step_def Let_def m by simp
qed

theorem illegal_selection_rewards_witness:
  "movable_at board44 (player_index board44) 0 = Some [] \<and> player_index board44 = 0 \<and>
   call_step board44 0 = Some (board44\<lparr>action := 0\<rparr>, field board44, -1, 0, True, []) \<and>
   movable_at (board44\<lparr>player_index := 1\<rparr>) (player_index (board44\<lparr>player_index := 1\<rparr>)) 0 = Some [] \<and>
   player_index (board44\<lparr>player_index := 1\<rparr>) \<noteq> 0 \<and>
   call_step (board44\<lparr>player_index := 1\<rparr>) 0
     = Some (board44\<lparr>player_index := 1, action := 0\<rparr>, field (board44\<lparr>player_index := 1\<rparr>), 0, -1, True, [])"
proof -
  have h0: "movable_at board44 (player_index board44) 0 = Some []"
    by (simp add: board44_def movable_at_def py_get_def py_index_def)
  have p0: "player_index board44 = 0" by (simp add: board44_def)
  let ?b = "board44\<lparr>player_index := 1\<rparr>"
  have h1: "movable_at ?b (player_index ?b) 0 = Some []"
    by (simp add: board44_def movable_at_def py_get_def py_index_def)
  have p1: "player_index ?b \<noteq> 0" by simp
  from illegal_selection_rewards[OF h0] illegal_selection_rewards[OF h1] h0 h1 p0 p1
  show ?thesis by simp
qed

text \<open>
  C9. An illegal selection changes nothing that a snapshot records: after the call the
  board, the mover, both direction maps and the dimensions are what they were (only the
  attribute holding the last action is assigned), and the episode is over.
\<close>

theorem illegal_selection_atomic:
  assumes "movable_at s (player_index s) a = Some []"
  shows "\<exists>s' obs r1 r2 nfo. call_step s a = Some (s', obs, r1, r2, True, nfo) \<and>
           field s' = field s \<and> player_index s' = player_index s \<and>
           movable_dirs s' = movable_dirs s \<and> W s' = W s \<and> H s' = H s \<and>
           backup s' = backup s \<and> s' = s\<lparr>action := a\<rparr> \<and> obs = field s"
proof -
  have "movable_at (s\<lparr>action := a\<rparr>) (player_index s) a = Some []"
    using assms by (simp add: movable_at_def)
  then have m: "movable_at (s\<lparr>action := a\<rparr>) (player_index (s\<lparr>action := a\<rparr>)) a = Some []"
    by simp
  show ?thesis unfolding call_step_def Let_def m by (simp add: backup_def)
qed

theorem illegal_selection_atomic_witness:
  "movable_at board44 (player_index board44) 3 = Some [] \<and>
   (\<exists>s' obs r1 r2 nfo. call_step board44 3 = Some (s', obs, r1, r2, True, nfo) \<and>
      field s' = field board44 \<and> player_index s' = player_index board44 \<and>
      movable_dirs s' = movable_dirs board44 \<and> backup s' = backup board44)"
proof -
  have h: "movable_at board44 (player_index board44) 3 = Some []"
    by (simp add: board44_def movable_at_def py_get_def py_index_def)
  from illegal_selection_atomic[OF h] h show ?thesis by blast
qed

section \<open>Applying a move\<close>

lemma board_ok_field_update:
  "board_ok s \<Longrightarrow> length f = length (field s) \<Longrightarrow> board_ok (s\<lparr>field := f\<rparr>)"
  by (simp add: board_ok_def)

lemma in_board_field_update [simp]: "in_board (s\<lparr>field := f\<rparr>) x y = in_board s x y"
  by (simp add: in_board_def)

lemma flip_walk_spec:
  assumes "board_ok s"
    and "\<forall>j<m. in_board s (x + int j * dx) (y + int j * dy)"
    and "cell s (x + int m * dx) (y + int m * dy) = my"
  shows "\<exists>f'. flip_walk my dx dy s x y = Some (s\<lparr>field := f'\<rparr>) \<and> length f' = length (field s) \<and>
           (\<forall>i<length f'. f' ! i = field s ! i \<or>
              (f' ! i = my \<and> (\<exists>j<m. i = nat (pos s (x + int j * dx) (y + int j * dy)))))"
  using assms
proof (induction m arbitrary: s x y)
  case 0
  then have "flip_walk my dx dy s x y = Some (s\<lparr>field := field s\<rparr>)"
    by (subst flip_walk.simps) (simp add: get_field_cell)
  then show ?case by (intro exI[of _ "field s"]) simp
next
  case (Suc m)
  note ok = Suc.prems(1)
  show ?case
  proof (cases "cell s x y = my")
    case True
    then have "flip_walk my dx dy s x y = Some (s\<lparr>field := field s\<rparr>)"
      by (subst flip_walk.simps) (simp add: get_field_cell[OF ok])
    then show ?thesis by (intro exI[of _ "field s"]) simp
  next
    case False
    have ib: "in_board s x y" using Suc.prems(2)[rule_format, of 0] by simp
    define q where "q = nat (pos s x y)"
    define f1 where "f1 = (field s)[q := my]"
    define s1 where "s1 = s\<lparr>field := f1\<rparr>"
    have pb: "0 \<le> pos s x y" "pos s x y < int (length (field s))"
      using pos_bounds[OF ib] ok by (simp_all add: pos_def board_ok_def)
    have ps: "py_set (field s) (pos s x y) my = Some f1"
      using pb by (simp add: py_set_in f1_def q_def)
    have ok1: "board_ok s1" using ok by (simp add: s1_def f1_def board_ok_def)
    have eq: "x + dx + int j * dx = x + int (Suc j) * dx" "y + dy + int j * dy = y + int (Suc j) * dy"
      for j by (simp_all add: algebra_simps)
    have ibs: "\<forall>j<m. in_board s1 (x + dx + int j * dx) (y + dy + int j * dy)"
      using Suc.prems(2) unfolding eq s1_def by auto
    have last: "cell s1 (x + dx + int m * dx) (y + dy + int m * dy) = my"
      unfolding eq
    proof (cases "in_board s (x + int (Suc m) * dx) (y + int (Suc m) * dy)")
      case True
      let ?i = "nat (W s * (y + int (Suc m) * dy) + (x + int (Suc m) * dx))"
      have il: "?i < length (field s)" using pos_bounds[OF True] ok by (simp add: board_ok_def)
      have "field s ! ?i = my" using Suc.prems(3) True by (simp add: cell_def)
      moreover have "q < length (field s)" using pb by (simp add: q_def)
      ultimately have "f1 ! ?i = my" unfolding f1_def by (cases "?i = q") simp_all
      then show "cell s1 (x + int (Suc m) * dx) (y + int (Suc m) * dy) = my"
        using True by (simp add: cell_def s1_def)
    next
      case False
      then show "cell s1 (x + int (Suc m) * dx) (y + int (Suc m) * dy) = my"
        using Suc.prems(3) by (simp add: cell_def s1_def)
    qed
    from Suc.IH[OF ok1 ibs last] obtain f' where
      r: "flip_walk my dx dy s1 (x + dx) (y + dy) = Some (s1\<lparr>field := f'\<rparr>)"
         "length f' = length (field s1)"
         "\<forall>i<length f'. f' ! i = field s1 ! i \<or>
            (f' ! i = my \<and> (\<exists>j<m. i = nat (pos s1 (x + dx + int j * dx) (y + dy + int j * dy))))"
      by blast
    have run: "flip_walk my dx dy s x y = Some (s\<lparr>field := f'\<rparr>)"
      using r(1) False ps
      by (subst flip_walk.simps) (simp add: get_field_cell[OF ok] s1_def)
    have len: "length f' = length (field s)" using r(2) by (simp add: s1_def f1_def)
    have "f' ! i = field s ! i \<or>
          (f' ! i = my \<and> (\<exists>j<Suc m. i = nat (pos s (x + int j * dx) (y + int j * dy))))"
      if i: "i < length f'" for i
    proof -
      from r(3) i consider (a) "f' ! i = field s1 ! i"
        | (b) "f' ! i = my" "\<exists>j<m. i = nat (pos s1 (x + dx + int j * dx) (y + dy + int j * dy))"
        by blast
      then show ?thesis
      proof cases
        case a
        show ?thesis
        proof (cases "i = q")
          case True
          then have "f' ! i = my" using a i len by (simp add: s1_def f1_def)
          moreover have "i = nat (pos s (x + int 0 * dx) (y + int 0 * dy))"
            using True by (simp add: q_def)
          ultimately show ?thesis by blast
        next
          case False
          then show ?thesis using a by (simp add: s1_def f1_def)
        qed
      next
        case b
        from b(2) obtain j where j: "j < m"
          "i = nat (pos s1 (x + dx + int j * dx) (y + dy + int j * dy))" by blast
        have "i = nat (pos s (x + int (Suc j) * dx) (y + int (Suc j) * dy))"
          using j(2) unfolding eq by (simp add: pos_def s1_def)
        moreover have "Suc j < Suc m" using j(1) by simp
        ultimately show ?thesis using b(1) by blast
      qed
    qed
    with run len show ?thesis by blast
  qed
qed

lemma pos_field_update [simp]: "pos (s\<lparr>field := f\<rparr>) x y = pos s x y"
  by (simp add: pos_def)

lemma movable_at_field_update [simp]: "movable_at (s\<lparr>field := f\<rparr>) p a = movable_at s p a"
  by (simp add: movable_at_def)

lemma outflank_ray:
  assumes o: "outflank s my e x y dx dy" and e: "e \<noteq> 9" and my: "my \<noteq> 9"
  shows "\<exists>m. (\<forall>j<m. in_board s (x + dx + int j * dx) (y + dy + int j * dy) \<and>
                    cell s (x + dx + int j * dx) (y + dy + int j * dy) = e) \<and>
             in_board s (x + dx + int m * dx) (y + dy + int m * dy) \<and>
             cell s (x + dx + int m * dx) (y + dy + int m * dy) = my"
proof -
  from o obtain k where adj: "cell s (x + dx) (y + dy) = e"
    and run: "\<forall>j<k. cell s (x + (int j + 2) * dx) (y + (int j + 2) * dy) = e"
    and stop: "cell s (x + (int k + 2) * dx) (y + (int k + 2) * dy) = my"
    by (auto simp: outflank_def)
  have ib: "in_board s u v" if "cell s u v = e \<or> cell s u v = my" for u v
    using that e my by (auto simp: cell_def split: if_splits)
  have eq: "x + dx + int (Suc j) * dx = x + (int j + 2) * dx"
           "y + dy + int (Suc j) * dy = y + (int j + 2) * dy" for j
    by (simp_all add: algebra_simps)
  have c: "cell s (x + dx + int j * dx) (y + dy + int j * dy) = e" if "j < Suc k" for j
  proof (cases j)
    case 0
    then show ?thesis using adj by simp
  next
    case (Suc j')
    with that have "j' < k" by simp
    with run show ?thesis unfolding Suc eq by blast
  qed
  have l: "cell s (x + dx + int (Suc k) * dx) (y + dy + int (Suc k) * dy) = my"
    using stop unfolding eq .
  show ?thesis using c l ib by (intro exI[of _ "Suc k"]) blast
qed

lemma flip_dirs_spec:
  assumes ok: "board_ok s" and me: "my \<noteq> e"
    and rel: "flipped_from e my f0 (field s)"
    and rays: "\<forall>d\<in>set ds. \<exists>dx dy m. move_diff d = Some (dx, dy) \<and>
         (\<forall>j<m. in_board s (x + dx + int j * dx) (y + dy + int j * dy) \<and>
                  f0 ! nat (pos s (x + dx + int j * dx) (y + dy + int j * dy)) = e) \<and>
         in_board s (x + dx + int m * dx) (y + dy + int m * dy) \<and>
         f0 ! nat (pos s (x + dx + int m * dx) (y + dy + int m * dy)) = my"
  shows "\<exists>f'. flip_dirs my x y ds s = Some (s\<lparr>field := f'\<rparr>) \<and> flipped_from e my f0 f'"
  using ok rel rays
proof (induction ds arbitrary: s)
  case Nil
  then show ?case by (intro exI[of _ "field s"]) simp
next
  case (Cons d ds)
  note ok = Cons.prems(1) and rel = Cons.prems(2)
  from Cons.prems(3) obtain dx dy m where md: "move_diff d = Some (dx, dy)"
    and ray: "\<forall>j<m. in_board s (x + dx + int j * dx) (y + dy + int j * dy) \<and>
                  f0 ! nat (pos s (x + dx + int j * dx) (y + dy + int j * dy)) = e"
    and ibm: "in_board s (x + dx + int m * dx) (y + dy + int m * dy)"
    and fm: "f0 ! nat (pos s (x + dx + int m * dx) (y + dy + int m * dy)) = my"
    by auto
  have len: "length (field s) = length f0" using rel by (simp add: flipped_from_def)
  let ?im = "nat (pos s (x + dx + int m * dx) (y + dy + int m * dy))"
  have "?im < length f0" using pos_bounds[OF ibm] ok len by (simp add: pos_def board_ok_def)
  with rel fm me have "field s ! ?im = my" by (auto simp: flipped_from_def)
  then have cm: "cell s (x + dx + int m * dx) (y + dy + int m * dy) = my"
    using ibm by (simp add: cell_def pos_def)
  have ibs: "\<forall>j<m. in_board s (x + dx + int j * dx) (y + dy + int j * dy)" using ray by blast
  from flip_walk_spec[OF ok ibs cm] obtain f1 where
    w: "flip_walk my dx dy s (x + dx) (y + dy) = Some (s\<lparr>field := f1\<rparr>)"
       "length f1 = length (field s)"
       "\<forall>i<length f1. f1 ! i = field s ! i \<or>
          (f1 ! i = my \<and> (\<exists>j<m. i = nat (pos s (x + dx + int j * dx) (y + dy + int j * dy))))"
    by blast
  have rel1: "flipped_from e my f0 f1"
    unfolding flipped_from_def
  proof (intro conjI allI impI)
    show "length f1 = length f0" using w(2) len by simp
    fix i assume i: "i < length f0"
    then have "i < length f1" using w(2) len by simp
    with w(3) consider (a) "f1 ! i = field s ! i"
      | (b) "f1 ! i = my" "\<exists>j<m. i = nat (pos s (x + dx + int j * dx) (y + dy + int j * dy))"
      by blast
    then show "f1 ! i = f0 ! i \<or> f0 ! i = e \<and> f1 ! i = my"
    proof cases
      case a
      then show ?thesis using rel i by (auto simp: flipped_from_def)
    next
      case b
      then show ?thesis using ray by auto
    qed
  qed
  let ?s1 = "s\<lparr>field := f1\<rparr>"
  have ok1: "board_ok ?s1" using ok w(2) by (simp add: board_ok_def)
  have rel1': "flipped_from e my f0 (field ?s1)" using rel1 by simp
  have rays1: "\<forall>d\<in>set ds. \<exists>dx dy m. move_diff d = Some (dx, dy) \<and>
         (\<forall>j<m. in_board ?s1 (x + dx + int j * dx) (y + dy + int j * dy) \<and>
                  f0 ! nat (pos ?s1 (x + dx + int j * dx) (y + dy + int j * dy)) = e) \<and>
         in_board ?s1 (x + dx + int m * dx) (y + dy + int m * dy) \<and>
         f0 ! nat (pos ?s1 (x + dx + int m * dx) (y + dy + int m * dy)) = my"
    using Cons.prems(3) by simp
  from Cons.IH[OF ok1 rel1' rays1] obtain f' where
    r: "flip_dirs my x y ds ?s1 = Some (?s1\<lparr>field := f'\<rparr>)" "flipped_from e my f0 f'"
    by blast
  have "flip_dirs my x y (d # ds) s = Some (s\<lparr>field := f'\<rparr>)"
    using md w(1) r(1) by simp
  with r(2) show ?case by blast
qed

lemma map_Some_two: "map Some xs = [Some a, Some b] \<Longrightarrow> xs = [a, b]"
  by (cases xs; cases "tl xs") auto

lemma engine_ok_facts:
  assumes "engine_ok s"
  shows "board_ok s" and "movable_dirs s = [dirs_spec s 0, dirs_spec s 1]"
    and "player_index s = 0 \<or> player_index s = 1"
proof -
  from assms show ok: "board_ok s" by (simp add: engine_ok_def board_ok_def)
  from assms have "map Some (movable_dirs s) = [Some (dirs_spec s 0), Some (dirs_spec s 1)]"
    by (simp add: engine_ok_def calc_movable_dirs_closed[OF ok])
  then show "movable_dirs s = [dirs_spec s 0, dirs_spec s 1]" by (rule map_Some_two)
  from assms show "player_index s = 0 \<or> player_index s = 1" by (simp add: engine_ok_def)
qed

lemma engine_ok_intro:
  assumes "board_ok s" "movable_dirs s = [dirs_spec s 0, dirs_spec s 1]"
    "player_index s = 0 \<or> player_index s = 1"
  shows "engine_ok s"
  using assms calc_movable_dirs_closed[OF assms(1)] by (simp add: engine_ok_def board_ok_def)

lemma movable_at_engine:
  assumes ok: "engine_ok s" and p: "p = 0 \<or> p = 1" and a: "0 \<le> a" "a < W s * H s"
  shows "movable_at s p a = Some (idx_dirs s p (nat a))"
proof -
  have len: "length (dirs_spec s p) = nat (W s * H s)" by (simp add: dirs_spec_def)
  have g: "py_get (movable_dirs s) p = Some (dirs_spec s p)"
    using p engine_ok_facts(2)[OF ok] by (auto simp: py_get_in)
  have "movable_at s p a = Some (dirs_spec s p ! nat a)"
    using a len by (intro movable_at_nth[OF g]) simp_all
  then show ?thesis using a by (simp add: dirs_spec_def)
qed

lemma scan_dirs_move_diff: "(dx, dy, d) \<in> set scan_dirs \<Longrightarrow> move_diff d = Some (dx, dy)"
  by (auto simp: scan_dirs_def move_diff_def)

lemma idx_dirs_nonempty:
  assumes ne: "idx_dirs s p (nat a) \<noteq> []" and a: "0 \<le> a"
  shows "in_board s (a mod W s) (a div W s)" and "cell s (a mod W s) (a div W s) = 0"
    and "W s * (a div W s) + a mod W s = a" and "field s ! nat a = 0"
    and "idx_dirs s p (nat a) = dirs_of s (color_of p) (- color_of p) (a mod W s) (a div W s) scan_dirs"
proof -
  from ne a show c: "cell s (a mod W s) (a div W s) = 0"
    by (auto simp: idx_dirs_def cell_dirs_def split: if_splits)
  then show ib: "in_board s (a mod W s) (a div W s)" by (auto simp: cell_def split: if_splits)
  show e: "W s * (a div W s) + a mod W s = a" by simp
  from c ib show "field s ! nat a = 0" by (simp add: cell_def)
  from c a show "idx_dirs s p (nat a)
      = dirs_of s (color_of p) (- color_of p) (a mod W s) (a div W s) scan_dirs"
    by (simp add: idx_dirs_def cell_dirs_def)
qed

lemma step_spec:
  assumes ok: "engine_ok s" and a: "0 \<le> a" "a < W s * H s"
    and ne: "idx_dirs s (player_index s) (nat a) \<noteq> []"
  shows "\<exists>f'. step s a = Some (s\<lparr>field := f',
                  movable_dirs := [dirs_spec (s\<lparr>field := f'\<rparr>) 0, dirs_spec (s\<lparr>field := f'\<rparr>) 1]\<rparr>)
           \<and> flipped_from (- color_of (player_index s)) (color_of (player_index s))
                ((field s)[nat a := color_of (player_index s)]) f'
           \<and> field s ! nat a = 0"
proof -
  define p where "p = player_index s"
  define my where "my = color_of p"
  define e where "e = - my"
  define x where "x = a mod W s"
  define y where "y = a div W s"
  define f0 where "f0 = (field s)[nat a := my]"
  define s1 where "s1 = s\<lparr>field := f0\<rparr>"
  note bok = engine_ok_facts(1)[OF ok]
  have pp: "p = 0 \<or> p = 1" using engine_ok_facts(3)[OF ok] by (simp add: p_def)
  have ib: "in_board s x y" and c0: "cell s x y = 0" and xy: "W s * y + x = a"
    and fa: "field s ! nat a = 0"
    and ds: "idx_dirs s p (nat a) = dirs_of s my e x y scan_dirs"
    using idx_dirs_nonempty[OF ne a(1)] by (simp_all add: x_def y_def p_def my_def e_def)
  have w0: "W s \<noteq> 0" using ib by (auto simp: in_board_def)
  have pd: "pos_decode s a = Some (x, y)" using w0 by (simp add: pos_decode_def x_def y_def)
  have al: "a < int (length (field s))" using a bok by (simp add: board_ok_def)
  have ps: "py_set (field s) a my = Some f0" using a(1) al by (simp add: py_set_in f0_def)
  have ma: "movable_at s (player_index s) a = Some (dirs_of s my e x y scan_dirs)"
    using movable_at_engine[OF ok pp a] ds by (simp add: p_def)
  have ok1: "board_ok s1" using bok by (simp add: s1_def f0_def board_ok_def)
  have mne: "my \<noteq> e" "e \<noteq> 9" "my \<noteq> 9" "my \<noteq> 0" "e \<noteq> 0"
    by (simp_all add: my_def e_def color_of_def)
  have rel0: "flipped_from e my f0 (field s1)" by (simp add: flipped_from_def s1_def)
  have rays: "\<forall>d\<in>set (dirs_of s my e x y scan_dirs). \<exists>dx dy m. move_diff d = Some (dx, dy) \<and>
         (\<forall>j<m. in_board s1 (x + dx + int j * dx) (y + dy + int j * dy) \<and>
                  f0 ! nat (pos s1 (x + dx + int j * dx) (y + dy + int j * dy)) = e) \<and>
         in_board s1 (x + dx + int m * dx) (y + dy + int m * dy) \<and>
         f0 ! nat (pos s1 (x + dx + int m * dx) (y + dy + int m * dy)) = my"
  proof
    fix d assume "d \<in> set (dirs_of s my e x y scan_dirs)"
    then obtain dx dy where t: "(dx, dy, d) \<in> set scan_dirs" and o: "outflank s my e x y dx dy"
      by (auto simp: set_dirs_of)
    from outflank_ray[OF o mne(2,3)] obtain m where
      run: "\<forall>j<m. in_board s (x + dx + int j * dx) (y + dy + int j * dy) \<and>
                    cell s (x + dx + int j * dx) (y + dy + int j * dy) = e"
      and ibm: "in_board s (x + dx + int m * dx) (y + dy + int m * dy)"
      and cm: "cell s (x + dx + int m * dx) (y + dy + int m * dy) = my"
      by blast
    have keep: "f0 ! nat (pos s u v) = cell s u v"
      if "in_board s u v" "cell s u v \<noteq> 0" for u v
    proof -
      have "field s ! nat (pos s u v) = cell s u v" using that(1) by (simp add: cell_def pos_def)
      with that(2) fa have "nat (pos s u v) \<noteq> nat a" by auto
      then show ?thesis using that(1) by (simp add: f0_def cell_def pos_def)
    qed
    have "\<forall>j<m. in_board s1 (x + dx + int j * dx) (y + dy + int j * dy) \<and>
                  f0 ! nat (pos s1 (x + dx + int j * dx) (y + dy + int j * dy)) = e"
      using run keep mne(5) by (simp add: s1_def)
    moreover have "in_board s1 (x + dx + int m * dx) (y + dy + int m * dy)"
      using ibm by (simp add: s1_def)
    moreover have "f0 ! nat (pos s1 (x + dx + int m * dx) (y + dy + int m * dy)) = my"
      using keep[OF ibm] cm mne(4) by (simp add: s1_def)
    ultimately show "\<exists>dx dy m. move_diff d = Some (dx, dy) \<and>
         (\<forall>j<m. in_board s1 (x + dx + int j * dx) (y + dy + int j * dy) \<and>
                  f0 ! nat (pos s1 (x + dx + int j * dx) (y + dy + int j * dy)) = e) \<and>
         in_board s1 (x + dx + int m * dx) (y + dy + int m * dy) \<and>
         f0 ! nat (pos s1 (x + dx + int m * dx) (y + dy + int m * dy)) = my"
      using scan_dirs_move_diff[OF t] by blast
  qed
  from flip_dirs_spec[OF ok1 mne(1) rel0 rays] obtain f' where
    fd: "flip_dirs my x y (dirs_of s my e x y scan_dirs) s1 = Some (s1\<lparr>field := f'\<rparr>)"
    and rel: "flipped_from e my f0 f'"
    by blast
  let ?s2 = "s\<lparr>field := f'\<rparr>"
  have s12: "s1\<lparr>field := f'\<rparr> = ?s2" by (simp add: s1_def)
  have "length f' = length (field s)" using rel by (simp add: flipped_from_def f0_def)
  then have ok2: "board_ok ?s2" using bok by (simp add: board_ok_def)
  have "step s a = Some (?s2\<lparr>movable_dirs := [dirs_spec ?s2 0, dirs_spec ?s2 1]\<rparr>)"
    unfolding step_def
    by (simp add: pd ps Let_def my_def[symmetric, unfolded p_def] s1_def[symmetric] ma
          fd[unfolded s12] calc_movable_dirs_closed[OF ok2])
  then show ?thesis
    using rel fa by (auto simp: e_def my_def p_def f0_def)
qed

lemma engine_ok_cong:
  assumes "engine_ok s" "W s' = W s" "H s' = H s" "field s' = field s"
    "movable_dirs s' = movable_dirs s" "player_index s' = 0 \<or> player_index s' = 1"
  shows "engine_ok s'"
proof -
  have b: "board_ok s'" using engine_ok_facts(1)[OF assms(1)] assms(2-4) by (simp add: board_ok_def)
  have "dirs_spec s' p = dirs_spec s p" for p
    using assms(2-4) by (intro dirs_spec_cong) simp_all
  then show ?thesis
    using engine_ok_facts(2)[OF assms(1)] assms(5,6) by (intro engine_ok_intro[OF b]) simp_all
qed

lemma engine_ok_after_step:
  assumes ok: "engine_ok s" and len: "length f' = length (field s)"
  shows "engine_ok (s\<lparr>field := f',
           movable_dirs := [dirs_spec (s\<lparr>field := f'\<rparr>) 0, dirs_spec (s\<lparr>field := f'\<rparr>) 1]\<rparr>)"
    (is "engine_ok ?s1")
proof -
  have b: "board_ok ?s1" using engine_ok_facts(1)[OF ok] len by (simp add: board_ok_def)
  have "dirs_spec ?s1 p = dirs_spec (s\<lparr>field := f'\<rparr>) p" for p
    by (intro dirs_spec_cong) simp_all
  then show ?thesis using engine_ok_facts(3)[OF ok] by (intro engine_ok_intro[OF b]) simp_all
qed

lemma put_num_spec:
  assumes ok: "engine_ok s" and p: "p = 0 \<or> p = 1"
  shows "put_num s p = Some (W s * H s
           - int (length (filter (\<lambda>a. idx_dirs s p (nat a) = []) [0 .. W s * H s - 1])))"
proof -
  have len: "length (dirs_spec s p) = nat (W s * H s)" by (simp add: dirs_spec_def)
  have g: "py_get (movable_dirs s) p = Some (dirs_spec s p)"
    using p engine_ok_facts(2)[OF ok] by (auto simp: py_get_in)
  have "filter (\<lambda>a. dirs_spec s p ! nat a = []) [0 .. W s * H s - 1]
          = filter (\<lambda>a. idx_dirs s p (nat a) = []) [0 .. W s * H s - 1]"
    by (intro filter_cong) (auto simp: dirs_spec_def)
  with get_invalid_actions_spec[OF g len] show ?thesis
    by (simp add: put_num_def action_space_n_def)
qed

lemma no_legal_cell_iff:
  assumes ok: "engine_ok s" and p: "p = 0 \<or> p = 1"
  shows "no_legal_cell s p \<longleftrightarrow> (\<forall>b. 0 \<le> b \<and> b < W s * H s \<longrightarrow> idx_dirs s p (nat b) = [])"
  using movable_at_engine[OF ok p]
  by (auto simp: no_legal_cell_def list_all_iff action_space_n_def)

lemma put_num_zero_iff:
  assumes ok: "engine_ok s" and p: "p = 0 \<or> p = 1" and n: "0 \<le> W s * H s"
  shows "put_num s p = Some 0 \<longleftrightarrow> no_legal_cell s p"
proof -
  let ?xs = "[0 .. W s * H s - 1]"
  let ?P = "\<lambda>a. idx_dirs s p (nat a) = []"
  have lx: "int (length ?xs) = W s * H s" using n by simp
  have "put_num s p = Some 0 \<longleftrightarrow> length (filter ?P ?xs) = length ?xs"
    using put_num_spec[OF ok p] lx by auto
  also have "\<dots> \<longleftrightarrow> (\<forall>b\<in>set ?xs. ?P b)"
  proof
    assume e: "length (filter ?P ?xs) = length ?xs"
    show "\<forall>b\<in>set ?xs. ?P b"
    proof (rule ccontr)
      assume "\<not> (\<forall>b\<in>set ?xs. ?P b)"
      then obtain b where "b \<in> set ?xs" "\<not> ?P b" by blast
      from length_filter_less[of b ?xs ?P] this e show False by simp
    qed
  next
    assume "\<forall>b\<in>set ?xs. ?P b"
    then have "filter ?P ?xs = ?xs" by (simp add: filter_id_conv)
    then show "length (filter ?P ?xs) = length ?xs" by simp
  qed
  also have "\<dots> \<longleftrightarrow> no_legal_cell s p"
    unfolding no_legal_cell_iff[OF ok p] by auto
  finally show ?thesis .
qed

lemma call_step_spec:
  assumes ok: "engine_ok s" and a: "0 \<le> a" "a < W s * H s"
  shows "(idx_dirs s (player_index s) (nat a) = [] \<longrightarrow>
            call_step s a = Some (s\<lparr>action := a\<rparr>, field s,
               (if player_index s = 0 then -1 else 0), (if player_index s = 0 then 0 else -1),
               True, []))
       \<and> (idx_dirs s (player_index s) (nat a) \<noteq> [] \<longrightarrow>
            (\<exists>s1 en mn. step (s\<lparr>action := a\<rparr>) a = Some s1 \<and> engine_ok s1 \<and>
               player_index s1 = player_index s \<and> W s1 = W s \<and> H s1 = H s \<and>
               flipped_from (- color_of (player_index s)) (color_of (player_index s))
                 ((field s)[nat a := color_of (player_index s)]) (field s1) \<and>
               field s ! nat a = 0 \<and>
               put_num s1 (if player_index s1 = 0 then 1 else 0) = Some en \<and>
               put_num s1 (if player_index s1 = 0 then 0 else 1) = Some mn \<and>
               call_step s a = Some (step_outcome s1 en mn)))"
proof -
  let ?sa = "s\<lparr>action := a\<rparr>"
  have oka: "engine_ok ?sa" using engine_ok_facts(3)[OF ok] by (intro engine_ok_cong[OF ok]) simp_all
  have pp: "player_index s = 0 \<or> player_index s = 1" by (rule engine_ok_facts(3)[OF ok])
  have ma: "movable_at ?sa (player_index ?sa) a = Some (idx_dirs s (player_index s) (nat a))"
    using movable_at_engine[OF ok pp a] by (simp add: movable_at_def)
  have ide: "idx_dirs ?sa p i = idx_dirs s p i" for p i
    using cell_cong[of ?sa s]
    by (simp add: idx_dirs_def cell_dirs_def dirs_of_def outflank_def)
  show ?thesis
  proof (intro conjI impI)
    assume "idx_dirs s (player_index s) (nat a) = []"
    then show "call_step s a = Some (s\<lparr>action := a\<rparr>, field s,
               (if player_index s = 0 then -1 else 0), (if player_index s = 0 then 0 else -1),
               True, [])"
      unfolding call_step_def Let_def ma by simp
  next
    assume ne: "idx_dirs s (player_index s) (nat a) \<noteq> []"
    then have ne': "idx_dirs ?sa (player_index ?sa) (nat a) \<noteq> []" by (simp add: ide)
    have a': "0 \<le> a" "a < W ?sa * H ?sa" using a by simp_all
    from step_spec[OF oka a' ne'] obtain f' where
      st: "step ?sa a = Some (?sa\<lparr>field := f',
              movable_dirs := [dirs_spec (?sa\<lparr>field := f'\<rparr>) 0, dirs_spec (?sa\<lparr>field := f'\<rparr>) 1]\<rparr>)"
      and rel: "flipped_from (- color_of (player_index s)) (color_of (player_index s))
                ((field s)[nat a := color_of (player_index s)]) f'"
      and fa: "field s ! nat a = 0"
      by auto
    define s1 where "s1 = ?sa\<lparr>field := f',
              movable_dirs := [dirs_spec (?sa\<lparr>field := f'\<rparr>) 0, dirs_spec (?sa\<lparr>field := f'\<rparr>) 1]\<rparr>"
    have len: "length f' = length (field ?sa)" using rel by (simp add: flipped_from_def)
    have ok1: "engine_ok s1" unfolding s1_def by (rule engine_ok_after_step[OF oka len])
    have p1: "player_index s1 = player_index s" "W s1 = W s" "H s1 = H s" "field s1 = f'"
      by (simp_all add: s1_def)
    have pe: "(if player_index s1 = 0 then 1 else 0) = 0 \<or> (if player_index s1 = 0 then 1 else 0) = (1::int)"
      and pm: "(if player_index s1 = 0 then 0 else 1) = 0 \<or> (if player_index s1 = 0 then 0 else 1) = (1::int)"
      by simp_all
    obtain en where en: "put_num s1 (if player_index s1 = 0 then 1 else 0) = Some en"
      using put_num_spec[OF ok1 pe] by blast
    obtain mn where mn: "put_num s1 (if player_index s1 = 0 then 0 else 1) = Some mn"
      using put_num_spec[OF ok1 pm] by blast
    have "call_step s a = Some (step_outcome s1 en mn)"
      unfolding call_step_def Let_def ma st s1_def[symmetric]
      using ne en mn by (simp add: step_outcome_def Let_def)
    then show "\<exists>s1 en mn. step (s\<lparr>action := a\<rparr>) a = Some s1 \<and> engine_ok s1 \<and>
               player_index s1 = player_index s \<and> W s1 = W s \<and> H s1 = H s \<and>
               flipped_from (- color_of (player_index s)) (color_of (player_index s))
                 ((field s)[nat a := color_of (player_index s)]) (field s1) \<and>
               field s ! nat a = 0 \<and>
               put_num s1 (if player_index s1 = 0 then 1 else 0) = Some en \<and>
               put_num s1 (if player_index s1 = 0 then 0 else 1) = Some mn \<and>
               call_step s a = Some (step_outcome s1 en mn)"
      using st ok1 p1 rel fa en mn unfolding s1_def[symmetric] by blast
  qed
qed

lemma legal_idx_dirs:
  assumes ok: "engine_ok s" and a: "0 \<le> a" "a < action_space_n s"
    and l: "movable_at s (player_index s) a \<noteq> Some []"
  shows "idx_dirs s (player_index s) (nat a) \<noteq> []"
  using movable_at_engine[OF ok engine_ok_facts(3)[OF ok] a(1)] a(2) l
  by (auto simp: action_space_n_def)

text \<open>
  C2. In a well-formed engine state, for an action of the action space whose entry in the
  mover's map is not empty, the placement and the flips succeed; if in the state they
  produce no cell is legal for player 0 and none for player 1, \<open>call_step\<close> returns that
  state with \<open>done = True\<close>, the info dictionary \<open>P1, P2\<close> holding the numbers of stones of
  colour 1 (player 0) and of colour -1 (player 1), and the rewards \<open>(1, -1)\<close> when player 0
  has strictly more stones, \<open>(-1, 1)\<close> when player 1 has, and \<open>(0, 0)\<close> on a tie.
\<close>

theorem game_end_rewards:
  assumes "engine_ok s" "0 \<le> a" "a < action_space_n s"
    and "movable_at s (player_index s) a \<noteq> Some []"
  shows "\<exists>s1. step (s\<lparr>action := a\<rparr>) a = Some s1 \<and>
           (no_legal_cell s1 0 \<and> no_legal_cell s1 1 \<longrightarrow>
              (\<exists>r1 r2. call_step s a
                  = Some (s1, field s1, r1, r2, True,
                          [(''P1'', count_color 1 (field s1)), (''P2'', count_color (-1) (field s1))]) \<and>
                 (count_color 1 (field s1) > count_color (-1) (field s1) \<longrightarrow> r1 = 1 \<and> r2 = -1) \<and>
                 (count_color 1 (field s1) < count_color (-1) (field s1) \<longrightarrow> r1 = -1 \<and> r2 = 1) \<and>
                 (count_color 1 (field s1) = count_color (-1) (field s1) \<longrightarrow> r1 = 0 \<and> r2 = 0)))"
proof -
  have a': "a < W s * H s" using assms(3) by (simp add: action_space_n_def)
  from call_step_spec[OF assms(1,2) a'] legal_idx_dirs[OF assms] obtain s1 en mn where
    st: "step (s\<lparr>action := a\<rparr>) a = Some s1" and ok1: "engine_ok s1"
    and d: "W s1 = W s" "H s1 = H s"
    and en: "put_num s1 (if player_index s1 = 0 then 1 else 0) = Some en"
    and mn: "put_num s1 (if player_index s1 = 0 then 0 else 1) = Some mn"
    and cs: "call_step s a = Some (step_outcome s1 en mn)"
    by blast
  have n: "0 \<le> W s1 * H s1" using assms(2) a' d by simp
  have "\<exists>r1 r2. call_step s a
                  = Some (s1, field s1, r1, r2, True,
                          [(''P1'', count_color 1 (field s1)), (''P2'', count_color (-1) (field s1))]) \<and>
                 (count_color 1 (field s1) > count_color (-1) (field s1) \<longrightarrow> r1 = 1 \<and> r2 = -1) \<and>
                 (count_color 1 (field s1) < count_color (-1) (field s1) \<longrightarrow> r1 = -1 \<and> r2 = 1) \<and>
                 (count_color 1 (field s1) = count_color (-1) (field s1) \<longrightarrow> r1 = 0 \<and> r2 = 0)"
    if none: "no_legal_cell s1 0 \<and> no_legal_cell s1 1"
  proof -
    have z: "put_num s1 0 = Some 0" "put_num s1 1 = Some 0"
      using none put_num_zero_iff[OF ok1 _ n] by simp_all
    have "en = 0" "mn = 0" using en mn z by (auto split: if_splits)
    then show ?thesis using cs by (simp add: step_outcome_def Let_def)
  qed
  with st show ?thesis by blast
qed

lemma engine_ok_board31: "engine_ok board31"
  by code_simp

lemma step_board31: "step (board31\<lparr>action := 2\<rparr>) 2 = Some board31_end"
  by code_simp

theorem game_end_rewards_witness:
  "engine_ok board31 \<and> (0::int) \<le> 2 \<and> 2 < action_space_n board31 \<and>
   movable_at board31 (player_index board31) 2 \<noteq> Some [] \<and>
   step (board31\<lparr>action := 2\<rparr>) 2 = Some board31_end \<and>
   no_legal_cell board31_end 0 \<and> no_legal_cell board31_end 1 \<and>
   count_color 1 (field board31_end) > count_color (-1) (field board31_end) \<and>
   call_step board31 2 = Some (board31_end, field board31_end, 1, -1, True, [(''P1'', 3), (''P2'', 0)])"
proof -
  have h: "(0::int) \<le> 2" "2 < action_space_n board31"
    "movable_at board31 (player_index board31) 2 \<noteq> Some []"
    by (simp_all add: board31_def action_space_n_def movable_at_def py_get_def py_index_def)
  have n: "no_legal_cell board31_end 0" "no_legal_cell board31_end 1"
    by (simp_all add: no_legal_cell_def board31_end_def action_space_n_def movable_at_def
          py_get_def py_index_def upto.simps)
  have c: "count_color 1 (field board31_end) = 3" "count_color (-1) (field board31_end) = 0"
    by (simp_all add: count_color_def board31_end_def)
  from game_end_rewards[OF engine_ok_board31 h] obtain r1 r2 where
    "call_step board31 2 = Some (board31_end, field board31_end, r1, r2, True,
        [(''P1'', count_color 1 (field board31_end)), (''P2'', count_color (-1) (field board31_end))])"
    "count_color 1 (field board31_end) > count_color (-1) (field board31_end) \<longrightarrow> r1 = 1 \<and> r2 = -1"
    using step_board31 n by auto
  then show ?thesis using engine_ok_board31 h step_board31 n c by simp
qed

text \<open>
  C4. In a well-formed engine state, for an action of the action space whose entry in the
  mover's map is not empty: if, in the state that the placement and the flips produce, the
  opponent has no legal cell and the mover has one, \<open>call_step\<close> returns that state, in
  which \<open>player_index\<close> is still the mover, with rewards \<open>(0, 0)\<close>, \<open>done = False\<close> and an empty
  info dictionary.
\<close>

theorem opponent_pass_keeps_mover:
  assumes "engine_ok s" "0 \<le> a" "a < action_space_n s"
    and "movable_at s (player_index s) a \<noteq> Some []"
  shows "\<exists>s1. step (s\<lparr>action := a\<rparr>) a = Some s1 \<and>
           (no_legal_cell s1 (if player_index s = 0 then 1 else 0) \<and>
            \<not> no_legal_cell s1 (player_index s) \<longrightarrow>
              call_step s a = Some (s1, field s1, 0, 0, False, []) \<and>
              player_index s1 = player_index s)"
proof -
  have a': "a < W s * H s" using assms(3) by (simp add: action_space_n_def)
  from call_step_spec[OF assms(1,2) a'] legal_idx_dirs[OF assms] obtain s1 en mn where
    st: "step (s\<lparr>action := a\<rparr>) a = Some s1" and ok1: "engine_ok s1"
    and d: "player_index s1 = player_index s" "W s1 = W s" "H s1 = H s"
    and en: "put_num s1 (if player_index s1 = 0 then 1 else 0) = Some en"
    and mn: "put_num s1 (if player_index s1 = 0 then 0 else 1) = Some mn"
    and cs: "call_step s a = Some (step_outcome s1 en mn)"
    by blast
  have n: "0 \<le> W s1 * H s1" using assms(2) a' d by simp
  have pp: "player_index s = 0 \<or> player_index s = 1" by (rule engine_ok_facts(3)[OF assms(1)])
  have "call_step s a = Some (s1, field s1, 0, 0, False, []) \<and> player_index s1 = player_index s"
    if h: "no_legal_cell s1 (if player_index s = 0 then 1 else 0) \<and>
           \<not> no_legal_cell s1 (player_index s)"
  proof -
    have e0: "en = 0"
      using h en d(1) put_num_zero_iff[OF ok1 _ n, of "if player_index s = 0 then 1 else 0"]
      by (auto split: if_splits)
    have "put_num s1 (player_index s) \<noteq> Some 0"
      using h pp put_num_zero_iff[OF ok1 _ n, of "player_index s"] by auto
    then have m0: "mn \<noteq> 0" using mn d(1) pp by (auto split: if_splits)
    show ?thesis using cs e0 m0 d(1) by (simp add: step_outcome_def Let_def)
  qed
  with st show ?thesis by blast
qed

lemma engine_ok_board51: "engine_ok board51"
  by code_simp

lemma step_board51: "step (board51\<lparr>action := 0\<rparr>) 0 = Some board51_pass"
  by code_simp

theorem opponent_pass_keeps_mover_witness:
  "engine_ok board51 \<and> (0::int) \<le> 0 \<and> 0 < action_space_n board51 \<and>
   movable_at board51 (player_index board51) 0 \<noteq> Some [] \<and>
   step (board51\<lparr>action := 0\<rparr>) 0 = Some board51_pass \<and>
   no_legal_cell board51_pass (if player_index board51 = 0 then 1 else 0) \<and>
   \<not> no_legal_cell board51_pass (player_index board51) \<and>
   call_step board51 0 = Some (board51_pass, field board51_pass, 0, 0, False, []) \<and>
   player_index board51_pass = player_index board51"
proof -
  have h: "(0::int) \<le> 0" "0 < action_space_n board51"
    "movable_at board51 (player_index board51) 0 \<noteq> Some []"
    by (simp_all add: board51_def action_space_n_def movable_at_def py_get_def py_index_def)
  have n: "no_legal_cell board51_pass (if player_index board51 = 0 then 1 else 0)"
    "\<not> no_legal_cell board51_pass (player_index board51)"
    by (simp_all add: no_legal_cell_def board51_pass_def board51_def action_space_n_def
          movable_at_def py_get_def py_index_def upto.simps)
  from opponent_pass_keeps_mover[OF engine_ok_board51 h] step_board51 n
  have "call_step board51 0 = Some (board51_pass, field board51_pass, 0, 0, False, []) \<and>
        player_index board51_pass = player_index board51"
    by auto
  then show ?thesis using engine_ok_board51 h step_board51 n by simp
qed

lemma set_field_Some:
  assumes "set_field s x y n = Some s'"
  shows "W s' = W s" "H s' = H s" "player_index s' = player_index s"
    "length (field s') = length (field s)"
  using assms
  by (auto simp: set_field_def py_set_def bind_eq_Some_conv)

lemma call_reset_engine_ok:
  assumes "call_reset s0 = Some s"
  shows "engine_ok s"
proof -
  let ?z = "s0\<lparr>action := 0, player_index := 0, field := replicate (nat (W s0 * H s0)) 0\<rparr>"
  from assms obtain s1 s2 s3 s4 d0 d1 where
    n: "\<not> W s0 * H s0 < 0"
    and st: "set_field ?z (half_trunc (W s0) - 1) (half_trunc (H s0) - 1) 1 = Some s1"
       "set_field s1 (half_trunc (W s0) - 1 + 1) (half_trunc (H s0) - 1 + 1) 1 = Some s2"
       "set_field s2 (half_trunc (W s0) - 1 + 1) (half_trunc (H s0) - 1) (-1) = Some s3"
       "set_field s3 (half_trunc (W s0) - 1) (half_trunc (H s0) - 1 + 1) (-1) = Some s4"
    and c: "calc_movable_dirs s4 0 = Some d0" "calc_movable_dirs s4 1 = Some d1"
    and s: "s = s4\<lparr>movable_dirs := [d0, d1]\<rparr>"
    by (auto simp: call_reset_def Let_def bind_eq_Some_conv split: if_splits)
  have w: "W s4 = W s0" "H s4 = H s0" "player_index s4 = 0"
    "length (field s4) = nat (W s0 * H s0)"
    using set_field_Some[OF st(1)] set_field_Some[OF st(2)] set_field_Some[OF st(3)]
      set_field_Some[OF st(4)] by simp_all
  have ok4: "board_ok s4" using w by (simp add: board_ok_def)
  have d: "d0 = dirs_spec s4 0" "d1 = dirs_spec s4 1"
    using c calc_movable_dirs_closed[OF ok4] by simp_all
  have b: "board_ok s" using ok4 by (simp add: s board_ok_def)
  have "dirs_spec s p = dirs_spec s4 p" for p
    by (intro dirs_spec_cong) (simp_all add: s)
  then show ?thesis using w by (intro engine_ok_intro[OF b]) (simp_all add: s d)
qed

lemma step_outcome_engine_ok:
  assumes "engine_ok s1"
  shows "engine_ok (fst (step_outcome s1 en mn))"
    and "field (fst (step_outcome s1 en mn)) = field s1"
proof -
  have c: "fst (step_outcome s1 en mn) = s1 \<or>
           fst (step_outcome s1 en mn) = s1\<lparr>player_index := (if player_index s1 = 0 then 1 else 0)\<rparr>"
    by (simp add: step_outcome_def Let_def)
  have "engine_ok (s1\<lparr>player_index := (if player_index s1 = 0 then 1 else 0)\<rparr>)"
    by (rule engine_ok_cong[OF assms]) simp_all
  with c assms show "engine_ok (fst (step_outcome s1 en mn))" by metis
  from c show "field (fst (step_outcome s1 en mn)) = field s1" by auto
qed

lemma call_step_engine_ok:
  assumes ok: "engine_ok s" and a: "0 \<le> a" "a < action_space_n s"
    and cs: "call_step s a = Some (s', obs, r1, r2, dn, nfo)"
  shows "engine_ok s'"
proof -
  have a': "a < W s * H s" using a(2) by (simp add: action_space_n_def)
  show ?thesis
  proof (cases "idx_dirs s (player_index s) (nat a) = []")
    case True
    with call_step_spec[OF ok a(1) a'] cs have "s' = s\<lparr>action := a\<rparr>" by simp
    then show ?thesis
      using engine_ok_facts(3)[OF ok] by (intro engine_ok_cong[OF ok]) simp_all
  next
    case False
    with call_step_spec[OF ok a(1) a'] obtain s1 en mn where
      "engine_ok s1" "call_step s a = Some (step_outcome s1 en mn)" by blast
    with cs step_outcome_engine_ok(1)[of s1 en mn] show ?thesis by simp
  qed
qed

lemma reachable_engine_ok: "reachable s \<Longrightarrow> engine_ok s"
proof (induction rule: reachable.induct)
  case (reach_reset s0 s)
  then show ?case by (rule call_reset_engine_ok)
next
  case (reach_step s a s' obs r1 r2 dn nfo)
  then show ?case by (intro call_step_engine_ok[of s a s' obs r1 r2 dn nfo]) simp_all
qed

lemma filter_count_cong:
  assumes "length xs = length ys" "\<forall>i<length xs. P (xs ! i) \<longleftrightarrow> P (ys ! i)"
  shows "length (filter P xs) = length (filter P ys)"
  using assms
proof (induction xs ys rule: list_induct2)
  case Nil
  show ?case by simp
next
  case (Cons x xs y ys)
  from Cons.prems have h: "P x \<longleftrightarrow> P y" and t: "\<forall>i<length xs. P (xs ! i) \<longleftrightarrow> P (ys ! i)"
    by (auto simp: nth_Cons split: nat.splits)
  from Cons.IH[OF t] h show ?case by simp
qed

lemma flipped_from_count:
  assumes "flipped_from e my f0 f" "e \<noteq> 0" "my \<noteq> 0"
  shows "count_nonempty f = count_nonempty f0"
proof -
  have len: "length f = length f0" using assms(1) by (simp add: flipped_from_def)
  have pt: "\<forall>i<length f. (f ! i \<noteq> 0) \<longleftrightarrow> (f0 ! i \<noteq> 0)"
  proof (intro allI impI)
    fix i assume "i < length f"
    with len assms(1) have "f ! i = f0 ! i \<or> (f0 ! i = e \<and> f ! i = my)"
      by (simp add: flipped_from_def)
    with assms(2,3) show "(f ! i \<noteq> 0) \<longleftrightarrow> (f0 ! i \<noteq> 0)" by auto
  qed
  have "length (filter (\<lambda>v. v \<noteq> 0) f) = length (filter (\<lambda>v. v \<noteq> 0) f0)"
    using len pt by (rule filter_count_cong)
  then show ?thesis by (simp only: count_nonempty_def)
qed

lemma placement_count:
  assumes "i < length f" "f ! i = 0" "my \<noteq> 0"
  shows "count_nonempty (f[i := my]) = count_nonempty f + 1"
  using filter_update_count[OF assms(1), of "\<lambda>v. v \<noteq> 0" my] assms(2,3)
  by (simp add: count_nonempty_def)

text \<open>
  C7. In every state reachable from \<open>call_reset\<close> by \<open>call_step\<close> with actions of the action
  space, \<open>call_step\<close> returns and the number of non-empty cells does not decrease. When the
  entry of the action in the mover's map is not empty, the number grows by exactly one: the
  cell of the action was empty and now holds the mover's colour, and every other cell is
  unchanged or was an opponent stone that now has the mover's colour.
\<close>

theorem nonempty_count_step:
  assumes "reachable s" "0 \<le> a" "a < action_space_n s"
  shows "\<exists>s' obs r1 r2 dn nfo. call_step s a = Some (s', obs, r1, r2, dn, nfo) \<and>
     count_nonempty (field s) \<le> count_nonempty (field s') \<and>
     (movable_at s (player_index s) a \<noteq> Some [] \<longrightarrow>
        count_nonempty (field s') = count_nonempty (field s) + 1 \<and>
        field s ! nat a = 0 \<and> field s' ! nat a = color_of (player_index s) \<and>
        (\<forall>i<length (field s). i \<noteq> nat a \<longrightarrow>
           field s' ! i = field s ! i \<or>
           (field s ! i = - color_of (player_index s) \<and> field s' ! i = color_of (player_index s))))"
proof -
  have ok: "engine_ok s" by (rule reachable_engine_ok[OF assms(1)])
  have a': "a < W s * H s" using assms(3) by (simp add: action_space_n_def)
  have al: "nat a < length (field s)"
    using assms(2) a' engine_ok_facts(1)[OF ok] by (simp add: board_ok_def)
  have ma: "movable_at s (player_index s) a = Some (idx_dirs s (player_index s) (nat a))"
    using movable_at_engine[OF ok engine_ok_facts(3)[OF ok] assms(2) a'] .
  define my where "my = color_of (player_index s)"
  have my0: "my \<noteq> 0" "- my \<noteq> 0" "my \<noteq> - my" by (simp_all add: my_def color_of_def)
  show ?thesis
  proof (cases "idx_dirs s (player_index s) (nat a) = []")
    case True
    with call_step_spec[OF ok assms(2) a'] have
      "call_step s a = Some (s\<lparr>action := a\<rparr>, field s,
               (if player_index s = 0 then -1 else 0), (if player_index s = 0 then 0 else -1),
               True, [])" by simp
    then show ?thesis using True ma by auto
  next
    case False
    with call_step_spec[OF ok assms(2) a'] obtain s1 en mn where
      rel: "flipped_from (- my) my ((field s)[nat a := my]) (field s1)"
      and fa: "field s ! nat a = 0"
      and cs: "call_step s a = Some (step_outcome s1 en mn)"
      unfolding my_def by blast
    obtain s' obs r1 r2 dn nfo where so: "step_outcome s1 en mn = (s', obs, r1, r2, dn, nfo)"
      by (metis prod_cases3)
    have fs: "field s' = field s1"
      using so by (auto simp: step_outcome_def Let_def split: if_splits)
    have cnt: "count_nonempty (field s1) = count_nonempty (field s) + 1"
      using flipped_from_count[OF rel my0(2,1)] placement_count[OF al fa my0(1)] by simp
    have pt: "\<forall>i<length (field s). field s1 ! i = (field s)[nat a := my] ! i \<or>
                ((field s)[nat a := my] ! i = - my \<and> field s1 ! i = my)"
      using rel by (simp add: flipped_from_def)
    have at: "field s1 ! nat a = my" using pt[rule_format, OF al] al my0(3) by auto
    have others: "\<forall>i<length (field s). i \<noteq> nat a \<longrightarrow>
           field s1 ! i = field s ! i \<or> (field s ! i = - my \<and> field s1 ! i = my)"
      using pt by auto
    show ?thesis
      using cs so fs cnt fa at others
      by (intro exI[of _ s'] exI[of _ obs] exI[of _ r1] exI[of _ r2] exI[of _ dn] exI[of _ nfo])
         (simp add: my_def)
  qed
qed

lemma reachable_board44: "reachable board44"
  by (rule reach_reset[OF call_reset_fresh44])

theorem nonempty_count_step_witness:
  "reachable board44 \<and> (0::int) \<le> 2 \<and> 2 < action_space_n board44 \<and>
   movable_at board44 (player_index board44) 2 \<noteq> Some [] \<and>
   count_nonempty (field board44) = 4 \<and>
   (\<exists>s' obs r1 r2 dn nfo. call_step board44 2 = Some (s', obs, r1, r2, dn, nfo) \<and>
      count_nonempty (field s') = 5 \<and> field s' ! nat 2 = color_of (player_index board44))"
proof -
  have h: "(0::int) \<le> 2" "2 < action_space_n board44"
    "movable_at board44 (player_index board44) 2 \<noteq> Some []"
    by (simp_all add: board44_def action_space_n_def movable_at_def py_get_def py_index_def)
  have c: "count_nonempty (field board44) = 4"
    by (simp add: count_nonempty_def board44_def)
  from nonempty_count_step[OF reachable_board44 h(1,2)] h(3) c
  have "\<exists>s' obs r1 r2 dn nfo. call_step board44 2 = Some (s', obs, r1, r2, dn, nfo) \<and>
      count_nonempty (field s') = 5 \<and> field s' ! nat 2 = color_of (player_index board44)"
    by fastforce
  with reachable_board44 h c show ?thesis by blast
qed

section \<open>The search\<close>

lemma restore_backup: "restore env (backup env0) = env0\<lparr>action := action env\<rparr>"
  by (cases env; cases env0) (simp add: restore_def backup_def)

lemma call_step_action [simp]: "call_step (s\<lparr>action := x\<rparr>) a = call_step s a"
  by (simp add: call_step_def)

lemma get_valid_actions_spec:
  assumes ok: "engine_ok s" and p: "p = 0 \<or> p = 1"
  shows "get_valid_actions s p
           = Some (filter (\<lambda>a. idx_dirs s p (nat a) \<noteq> []) [0 .. W s * H s - 1])"
proof -
  have len: "length (dirs_spec s p) = nat (W s * H s)" by (simp add: dirs_spec_def)
  have g: "py_get (movable_dirs s) p = Some (dirs_spec s p)"
    using p engine_ok_facts(2)[OF ok] by (auto simp: py_get_in)
  let ?inv = "filter (\<lambda>a. dirs_spec s p ! nat a = []) [0 .. W s * H s - 1]"
  have "filter (\<lambda>a. a \<notin> set ?inv) [0 .. W s * H s - 1]
          = filter (\<lambda>a. idx_dirs s p (nat a) \<noteq> []) [0 .. W s * H s - 1]"
    by (intro filter_cong) (auto simp: dirs_spec_def)
  with get_invalid_actions_spec[OF g len] show ?thesis
    by (simp add: get_valid_actions_def action_space_n_def)
qed

lemma eval_board_value:
  assumes "board_ok s" "table_fits s"
  shows "eval_board s = Some (board_value s)"
proof -
  have "W s = 8 \<Longrightarrow> length (field s) = length evals8x8"
    using assms by (simp add: board_ok_def table_fits_def evals8x8_def)
  moreover have "W s = 6 \<Longrightarrow> length (field s) = length evals6x6"
    using assms by (simp add: board_ok_def table_fits_def evals6x6_def)
  ultimately show ?thesis
    by (simp add: eval_board_def board_value_def np_sum_mul_def)
qed

lemma fold_upd_length:
  "length (fold (\<lambda>a sc. sc[nat a := g a]) as sc) = length sc"
  by (induction as arbitrary: sc) simp_all

lemma fold_upd_nth:
  assumes "\<forall>a\<in>set as. 0 \<le> a" "i < length sc"
  shows "fold (\<lambda>a sc. sc[nat a := g a]) as sc ! i = (if int i \<in> set as then g (int i) else sc ! i)"
  using assms
proof (induction as arbitrary: sc)
  case Nil
  show ?case by simp
next
  case (Cons a as)
  have a0: "0 \<le> a" using Cons.prems(1) by simp
  have "fold (\<lambda>a sc. sc[nat a := g a]) (a # as) sc ! i
          = (if int i \<in> set as then g (int i) else sc[nat a := g a] ! i)"
    using Cons.IH[of "sc[nat a := g a]"] Cons.prems by simp
  moreover have "sc[nat a := g a] ! i = (if a = int i then g (int i) else sc ! i)"
    using a0 Cons.prems(2) by (auto simp: nth_list_update)
  ultimately show ?case by auto
qed

lemma legal_child:
  assumes ok: "engine_ok s" and a: "0 \<le> a" "a < W s * H s"
    and ne: "idx_dirs s (player_index s) (nat a) \<noteq> []"
  shows "\<exists>child obs r1 r2 dn nfo. call_step s a = Some (child, obs, r1, r2, dn, nfo) \<and>
           engine_ok child \<and> W child = W s \<and> H child = H s \<and>
           field s ! nat a = 0 \<and> field child ! nat a = color_of (player_index s) \<and>
           (\<forall>i<length (field s). i \<noteq> nat a \<longrightarrow>
              field child ! i = field s ! i \<or>
              (field s ! i = - color_of (player_index s) \<and>
               field child ! i = color_of (player_index s)))"
proof -
  define my where "my = color_of (player_index s)"
  have my0: "my \<noteq> - my" by (simp add: my_def color_of_def)
  have al: "nat a < length (field s)"
    using a engine_ok_facts(1)[OF ok] by (simp add: board_ok_def)
  from call_step_spec[OF ok a] ne obtain s1 en mn where
    ok1: "engine_ok s1" and d: "W s1 = W s" "H s1 = H s"
    and rel: "flipped_from (- my) my ((field s)[nat a := my]) (field s1)"
    and fa: "field s ! nat a = 0"
    and cs: "call_step s a = Some (step_outcome s1 en mn)"
    unfolding my_def by blast
  obtain child obs r1 r2 dn nfo where so: "step_outcome s1 en mn = (child, obs, r1, r2, dn, nfo)"
    by (metis prod_cases3)
  have c: "child = fst (step_outcome s1 en mn)" using so by simp
  have okc: "engine_ok child" and fc: "field child = field s1"
    using step_outcome_engine_ok[OF ok1, of en mn] c by simp_all
  have dc: "W child = W s" "H child = H s"
    using so d by (auto simp: step_outcome_def Let_def split: if_splits)
  have pt: "\<forall>i<length (field s). field s1 ! i = (field s)[nat a := my] ! i \<or>
                ((field s)[nat a := my] ! i = - my \<and> field s1 ! i = my)"
    using rel by (simp add: flipped_from_def)
  have at: "field s1 ! nat a = my" using pt[rule_format, OF al] al my0 by auto
  have others: "\<forall>i<length (field s). i \<noteq> nat a \<longrightarrow>
           field s1 ! i = field s ! i \<or> (field s ! i = - my \<and> field s1 ! i = my)"
    using pt by auto
  have at': "field child ! nat a = color_of (player_index s)" using at by (simp add: fc my_def)
  have others': "\<forall>i<length (field s). i \<noteq> nat a \<longrightarrow>
              field child ! i = field s ! i \<or>
              (field s ! i = - color_of (player_index s) \<and>
               field child ! i = color_of (player_index s))"
    using others by (simp add: fc my_def)
  have "call_step s a = Some (child, obs, r1, r2, dn, nfo)" using cs so by simp
  with okc dc fa at' others' show ?thesis by blast
qed

lemma table_fits_cong: "W s' = W s \<Longrightarrow> H s' = H s \<Longrightarrow> table_fits s' = table_fits s"
  by (simp add: table_fits_def)

lemma negamax_loop_cutoff:
  assumes d: "md < depth" and ok: "engine_ok env0" and tf: "table_fits env0"
    and p: "p = player_index env0"
    and as: "\<forall>a\<in>set as. 0 \<le> a \<and> a < W env0 * H env0 \<and> idx_dirs env0 p (nat a) \<noteq> []"
    and len: "length scores = nat (W env0 * H env0)"
  shows "\<exists>env'. negamax_loop md c env depth (backup env0) p as scores
           = Some (c, env',
                   fold (\<lambda>a sc. sc[nat a := leaf_score p (the (call_step env0 a))]) as scores)"
  using as len
proof (induction as arbitrary: env scores)
  case Nil
  show ?case by simp
next
  case (Cons a as)
  from Cons.prems(1) have a: "0 \<le> a" "a < W env0 * H env0"
    and ne: "idx_dirs env0 (player_index env0) (nat a) \<noteq> []" by (simp_all add: p)
  from legal_child[OF ok a ne] obtain child obs r1 r2 dn nfo where
    cs: "call_step env0 a = Some (child, obs, r1, r2, dn, nfo)"
    and okc: "engine_ok child" and dc: "W child = W env0" "H child = H env0"
    by blast
  have ev: "eval_board child = Some (board_value child)"
    using eval_board_value[OF engine_ok_facts(1)[OF okc]] tf table_fits_cong[OF dc] by simp
  define v where "v = leaf_score p (child, obs, r1, r2, dn, nfo)"
  have ps: "py_set scores a v = Some (scores[nat a := v])"
    using a Cons.prems(2) by (simp add: py_set_in)
  have len': "length (scores[nat a := v]) = nat (W env0 * H env0)" using Cons.prems(2) by simp
  have as': "\<forall>a\<in>set as. 0 \<le> a \<and> a < W env0 * H env0 \<and> idx_dirs env0 p (nat a) \<noteq> []"
    using Cons.prems(1) by simp
  from Cons.IH[OF as' len', of child] obtain env' where
    ih: "negamax_loop md c child depth (backup env0) p as (scores[nat a := v])
           = Some (c, env',
                   fold (\<lambda>a sc. sc[nat a := leaf_score p (the (call_step env0 a))]) as
                     (scores[nat a := v]))"
    by blast
  have "negamax_loop md c env depth (backup env0) p (a # as) scores
          = negamax_loop md c child depth (backup env0) p as (scores[nat a := v])"
    by (cases dn; cases "p = 0")
       (use d cs ev ps in \<open>simp_all add: restore_backup Let_def v_def leaf_score_def\<close>)
  with ih show ?case by (simp add: cs v_def)
qed

lemma negamax_cutoff:
  assumes d: "md < depth" and ok: "engine_ok env" and tf: "table_fits env"
    and miss: "cache c (np_str (field env)) = None"
  shows "\<exists>env'. negamax md c env depth
           = Some (c\<lparr>count := count c + 1, cache := (cache c)(np_str (field env) \<mapsto> cutoff_scores env)\<rparr>,
                   env', cutoff_scores env)"
proof -
  define p where "p = player_index env"
  define n where "n = W env * H env"
  define valid where "valid = filter (\<lambda>a. idx_dirs env p (nat a) \<noteq> []) [0 .. n - 1]"
  define c1 where "c1 = c\<lparr>count := count c + 1\<rparr>"
  have pp: "p = 0 \<or> p = 1" using engine_ok_facts(3)[OF ok] by (simp add: p_def)
  have gv: "get_valid_actions env p = Some valid"
    using get_valid_actions_spec[OF ok pp] by (simp add: valid_def n_def)
  have as: "\<forall>a\<in>set valid. 0 \<le> a \<and> a < W env * H env \<and> idx_dirs env p (nat a) \<noteq> []"
    by (auto simp: valid_def n_def)
  have len: "length (replicate (nat n) (-999::int)) = nat (W env * H env)" by (simp add: n_def)
  let ?g = "\<lambda>a. leaf_score p (the (call_step env a))"
  from negamax_loop_cutoff[OF d ok tf p_def as len, of c1 env] obtain env' where
    lp: "negamax_loop md c1 env depth (backup env) p valid (replicate (nat n) (-999))
           = Some (c1, env', fold (\<lambda>a sc. sc[nat a := ?g a]) valid (replicate (nat n) (-999)))"
    by blast
  have eq: "fold (\<lambda>a sc. sc[nat a := ?g a]) valid (replicate (nat n) (-999)) = cutoff_scores env"
  proof (rule nth_equalityI)
    show "length (fold (\<lambda>a sc. sc[nat a := ?g a]) valid (replicate (nat n) (-999)))
            = length (cutoff_scores env)"
      by (simp add: fold_upd_length cutoff_scores_def action_space_n_def n_def)
  next
    fix i assume "i < length (fold (\<lambda>a sc. sc[nat a := ?g a]) valid (replicate (nat n) (-999)))"
    then have i: "i < nat n" by (simp add: fold_upd_length)
    then have ir: "0 \<le> int i" "int i < W env * H env" by (simp_all add: n_def)
    have v0: "\<forall>a\<in>set valid. 0 \<le> a" using as by blast
    have ma: "movable_at env p (int i) = Some (idx_dirs env p i)"
      using movable_at_engine[OF ok pp ir] by simp
    obtain r where r: "idx_dirs env p i \<noteq> [] \<Longrightarrow> call_step env (int i) = Some r"
      using legal_child[OF ok ir] by (fastforce simp: p_def)
    have "fold (\<lambda>a sc. sc[nat a := ?g a]) valid (replicate (nat n) (-999)) ! i
            = (if int i \<in> set valid then ?g (int i) else -999)"
      using fold_upd_nth[OF v0, of i "replicate (nat n) (-999)" ?g] i by simp
    also have "\<dots> = (if idx_dirs env p i = [] then -999 else ?g (int i))"
      using i by (auto simp: valid_def)
    also have "\<dots> = cutoff_scores env ! i"
      using i ma r
      by (auto simp: cutoff_scores_def action_space_n_def n_def p_def[symmetric])
    finally show "fold (\<lambda>a sc. sc[nat a := ?g a]) valid (replicate (nat n) (-999)) ! i
                    = cutoff_scores env ! i" .
  qed
  show ?thesis
    unfolding negamax.simps[of md c env depth]
    using miss gv lp
    by (simp add: Let_def p_def[symmetric] c1_def[symmetric] action_space_n_def n_def[symmetric] eq)
       (simp add: c1_def)
qed

lemma upto_nth: "0 \<le> a \<Longrightarrow> a < n \<Longrightarrow> [0 .. n - 1] ! nat a = a"
  using nth_upto[of 0 "nat a" "n - 1"] by simp

lemma cutoff_scores_length: "length (cutoff_scores env) = nat (action_space_n env)"
  by (simp add: cutoff_scores_def)

lemma cutoff_scores_nth:
  assumes ok: "engine_ok env" and tf: "table_fits env"
    and a: "0 \<le> a" "a < action_space_n env"
  shows "(movable_at env (player_index env) a = Some [] \<longrightarrow> cutoff_scores env ! nat a = -999) \<and>
     (movable_at env (player_index env) a \<noteq> Some [] \<longrightarrow>
        (\<exists>child obs r1 r2 dn nfo. call_step env a = Some (child, obs, r1, r2, dn, nfo) \<and>
           (dn \<longrightarrow> cutoff_scores env ! nat a = (if player_index env = 0 then r1 else r2) * 500) \<and>
           (\<not> dn \<longrightarrow> eval_board child = Some (board_value child) \<and>
              cutoff_scores env ! nat a
                = (if player_index env \<noteq> 0 then - board_value child else board_value child))))"
proof -
  have a': "a < W env * H env" using a(2) by (simp add: action_space_n_def)
  have nth: "cutoff_scores env ! nat a
       = (if movable_at env (player_index env) a = Some [] then -999
          else (case call_step env a of
                  Some r \<Rightarrow> leaf_score (player_index env) r | None \<Rightarrow> 0))"
    using a upto_nth[OF a] by (simp add: cutoff_scores_def)
  show ?thesis
  proof (intro conjI impI)
    assume "movable_at env (player_index env) a = Some []"
    then show "cutoff_scores env ! nat a = -999" by (simp add: nth)
  next
    assume l: "movable_at env (player_index env) a \<noteq> Some []"
    from legal_child[OF ok a(1) a' legal_idx_dirs[OF ok a l]] obtain child obs r1 r2 dn nfo where
      cs: "call_step env a = Some (child, obs, r1, r2, dn, nfo)"
      and okc: "engine_ok child" and dc: "W child = W env" "H child = H env"
      by blast
    have ev: "eval_board child = Some (board_value child)"
      using eval_board_value[OF engine_ok_facts(1)[OF okc]] tf table_fits_cong[OF dc] by simp
    have "cutoff_scores env ! nat a = leaf_score (player_index env) (child, obs, r1, r2, dn, nfo)"
      using l cs by (simp add: nth)
    then have "(dn \<longrightarrow> cutoff_scores env ! nat a = (if player_index env = 0 then r1 else r2) * 500) \<and>
           (\<not> dn \<longrightarrow> eval_board child = Some (board_value child) \<and>
              cutoff_scores env ! nat a
                = (if player_index env \<noteq> 0 then - board_value child else board_value child))"
      using ev by (simp add: leaf_score_def)
    with cs show "\<exists>child obs r1 r2 dn nfo. call_step env a = Some (child, obs, r1, r2, dn, nfo) \<and>
           (dn \<longrightarrow> cutoff_scores env ! nat a = (if player_index env = 0 then r1 else r2) * 500) \<and>
           (\<not> dn \<longrightarrow> eval_board child = Some (board_value child) \<and>
              cutoff_scores env ! nat a
                = (if player_index env \<noteq> 0 then - board_value child else board_value child))"
      by blast
  qed
qed

text \<open>
  C6 (as amended). Take a node of the search at a depth above \<open>max_depth\<close> whose board is not
  in the cache, on a well-formed engine whose board has the shape of its table (8x8 for
  width 8, 6x6 for width 6). The search returns there; illegal actions keep the sentinel
  -999; a legal action whose move ends the game scores 500 times the reward of the node's
  mover; and a legal action whose child is not terminal scores \<open>board_value child\<close>, the sum of
  the products of the table of the board's width with the child's cells (0 for other
  widths), negated exactly when the mover at that node, not the mover at the root, is not
  player 0.
\<close>

theorem cutoff_leaf_scores:
  assumes "engine_ok env" "table_fits env" "cache c (np_str (field env)) = None" "max_depth < depth"
  shows "\<exists>c' env' scores. negamax max_depth c env depth = Some (c', env', scores) \<and>
     length scores = nat (action_space_n env) \<and>
     (\<forall>a. 0 \<le> a \<and> a < action_space_n env \<longrightarrow>
        (movable_at env (player_index env) a = Some [] \<longrightarrow> scores ! nat a = -999) \<and>
        (movable_at env (player_index env) a \<noteq> Some [] \<longrightarrow>
           (\<exists>child obs r1 r2 dn nfo. call_step env a = Some (child, obs, r1, r2, dn, nfo) \<and>
              (dn \<longrightarrow> scores ! nat a = (if player_index env = 0 then r1 else r2) * 500) \<and>
              (\<not> dn \<longrightarrow> eval_board child = Some (board_value child) \<and>
                 scores ! nat a
                   = (if player_index env \<noteq> 0 then - board_value child else board_value child)))))"
proof -
  from negamax_cutoff[OF assms(4,1,2,3)] obtain env' where
    "negamax max_depth c env depth
       = Some (c\<lparr>count := count c + 1, cache := (cache c)(np_str (field env) \<mapsto> cutoff_scores env)\<rparr>,
               env', cutoff_scores env)"
    by blast
  then show ?thesis
    using cutoff_scores_length[of env] cutoff_scores_nth[OF assms(1,2)] by blast
qed

lemma engine_ok_child66: "engine_ok child66"
  by code_simp

lemma call_step_child66:
  "call_step child66 10 = Some (grand66, field grand66, 0, 0, False, [])"
  by code_simp

theorem cutoff_leaf_scores_witness:
  "engine_ok child66 \<and> table_fits child66 \<and> cache empty_search (np_str (field child66)) = None \<and>
   (0::int) < 1 \<and> (0::int) \<le> 10 \<and> 10 < action_space_n child66 \<and>
   movable_at child66 (player_index child66) 10 \<noteq> Some [] \<and>
   call_step child66 10 = Some (grand66, field grand66, 0, 0, False, []) \<and>
   player_index child66 \<noteq> 0 \<and> board_value grand66 = 12 \<and>
   (\<exists>c' env' scores. negamax 0 empty_search child66 1 = Some (c', env', scores) \<and>
      scores ! nat 10 = - 12)"
proof -
  have h: "table_fits child66" "cache empty_search (np_str (field child66)) = None" "(0::int) < 1"
    by (simp_all add: table_fits_def child66_def empty_search_def)
  have a: "(0::int) \<le> 10 \<and> 10 < action_space_n child66"
    "movable_at child66 (player_index child66) 10 \<noteq> Some []" "player_index child66 \<noteq> 0"
    by (simp_all add: child66_def action_space_n_def movable_at_def py_get_def py_index_def)
  have b: "board_value grand66 = 12"
    by (simp add: board_value_def grand66_def evals6x6_def)
  from cutoff_leaf_scores[OF engine_ok_child66 h] obtain c' env' scores where
    n: "negamax 0 empty_search child66 1 = Some (c', env', scores)"
    and s: "\<forall>a. 0 \<le> a \<and> a < action_space_n child66 \<longrightarrow>
        (movable_at child66 (player_index child66) a = Some [] \<longrightarrow> scores ! nat a = -999) \<and>
        (movable_at child66 (player_index child66) a \<noteq> Some [] \<longrightarrow>
           (\<exists>child obs r1 r2 dn nfo. call_step child66 a = Some (child, obs, r1, r2, dn, nfo) \<and>
              (dn \<longrightarrow> scores ! nat a = (if player_index child66 = 0 then r1 else r2) * 500) \<and>
              (\<not> dn \<longrightarrow> eval_board child = Some (board_value child) \<and>
                 scores ! nat a
                   = (if player_index child66 \<noteq> 0 then - board_value child else board_value child))))"
    by blast
  from s[rule_format, OF a(1)] a(2) call_step_child66
  have "scores ! nat 10 = (if player_index child66 \<noteq> 0 then - board_value grand66 else board_value grand66)"
    by auto
  then have "scores ! nat 10 = - 12" using a(3) b by simp
  with n engine_ok_child66 h a b call_step_child66 show ?thesis by blast
qed

lemma root_search66:
  "(case negamax 0 empty_search board66 0 of
      Some (c, e, v) \<Rightarrow> cache c (np_str (field child66)) | None \<Rightarrow> None)
   = Some [- 999, - 999, - 999, - 999, - 999, - 999, - 999, - 999, 0, - 999, - 12, - 999,
           - 999, - 999, - 999, - 999, - 999, - 999, - 999, - 999, - 999, - 999, 0, - 999,
           - 999, - 999, - 999, - 999, - 999, - 999, - 999, - 999, - 999, - 999, - 999, - 999]"
  by code_simp

lemma call_step_board66:
  "call_step board66 16 = Some (child66, field child66, 0, 0, False, [])"
  by code_simp

theorem leaf_sign_root_mover_counterexample:
  "player_index board66 = 0 \<and>
   call_step board66 16 = Some (child66, field child66, 0, 0, False, []) \<and>
   player_index child66 = 1 \<and>
   call_step child66 10 = Some (grand66, field grand66, 0, 0, False, []) \<and>
   eval_board grand66 = Some 12 \<and>
   (case negamax 0 empty_search board66 0 of
      Some (c, e, v) \<Rightarrow> map_option (\<lambda>sc. sc ! 10) (cache c (np_str (field child66)))
    | None \<Rightarrow> None) = Some (- 12)"
proof -
  have p: "player_index board66 = 0" "player_index child66 = 1"
    by (simp_all add: board66_def child66_def)
  have e: "eval_board grand66 = Some 12"
    by (simp add: eval_board_def np_sum_mul_def grand66_def evals6x6_def)
  have "(case negamax 0 empty_search board66 0 of
      Some (c, e, v) \<Rightarrow> map_option (\<lambda>sc. sc ! 10) (cache c (np_str (field child66)))
    | None \<Rightarrow> None) = Some (- 12)"
    using root_search66 by (auto split: option.splits)
  with p e call_step_board66 call_step_child66 show ?thesis by simp
qed

lemma distinct_children:
  assumes ok: "engine_ok s" and ab: "a \<noteq> b"
    and a: "0 \<le> a" "a < W s * H s" "idx_dirs s (player_index s) (nat a) \<noteq> []"
    and b: "0 \<le> b" "b < W s * H s" "idx_dirs s (player_index s) (nat b) \<noteq> []"
    and ca: "call_step s a = Some (ca, oa, ra1, ra2, da, na)"
    and cb: "call_step s b = Some (cb, ob, rb1, rb2, db, nb)"
  shows "field ca \<noteq> field cb"
proof -
  define my where "my = color_of (player_index s)"
  have my0: "my \<noteq> 0" "- my \<noteq> 0" by (simp_all add: my_def color_of_def)
  have al: "nat a < length (field s)"
    using a engine_ok_facts(1)[OF ok] by (simp add: board_ok_def)
  from legal_child[OF ok a] ca have fa: "field s ! nat a = 0" "field ca ! nat a = my"
    by (auto simp: my_def)
  from legal_child[OF ok b] cb have
    "\<forall>i<length (field s). i \<noteq> nat b \<longrightarrow>
        field cb ! i = field s ! i \<or> (field s ! i = - my \<and> field cb ! i = my)"
    by (auto simp: my_def)
  moreover have "nat a \<noteq> nat b" using ab a(1) b(1) by simp
  ultimately have "field cb ! nat a = 0" using al fa(1) my0 by force
  with fa(2) my0 show ?thesis by metis
qed

lemma np_max_Some: "xs \<noteq> [] \<Longrightarrow> np_max xs = Some (Max (set xs))"
  by (simp add: np_max_def)

lemma np_str_inj:
  "length f \<le> 1000 \<Longrightarrow> length g \<le> 1000 \<Longrightarrow> np_str f = np_str g \<Longrightarrow> f = g"
  by (simp add: np_str_def)

lemma negamax_loop_last:
  assumes ok: "engine_ok env0" and tf: "table_fits env0" and p: "p = player_index env0"
    and as: "\<forall>a\<in>set as. 0 \<le> a \<and> a < W env0 * H env0 \<and> idx_dirs env0 p (nat a) \<noteq> []"
    and dist: "distinct as"
    and len: "length scores = nat (W env0 * H env0)"
    and small: "W env0 * H env0 \<le> 1000"
    and miss: "\<forall>a\<in>set as. \<forall>child obs r1 r2 dn nfo.
                 call_step env0 a = Some (child, obs, r1, r2, dn, nfo) \<longrightarrow> cache c (np_str (field child)) = None"
  shows "\<exists>c' env'. negamax_loop md c env md (backup env0) p as scores
           = Some (c', env', fold (\<lambda>a sc. sc[nat a := two_ply_score env0 a]) as scores)"
  using as dist len miss
proof (induction as arbitrary: c env scores)
  case Nil
  show ?case by simp
next
  case (Cons a as)
  from Cons.prems(1) have a: "0 \<le> a" "a < W env0 * H env0"
    and ne: "idx_dirs env0 (player_index env0) (nat a) \<noteq> []" by (simp_all add: p)
  from legal_child[OF ok a ne] obtain child obs r1 r2 dn nfo where
    cs: "call_step env0 a = Some (child, obs, r1, r2, dn, nfo)"
    and okc: "engine_ok child" and dc: "W child = W env0" "H child = H env0"
    by blast
  define v where "v = two_ply_score env0 a"
  have ps: "py_set scores a v = Some (scores[nat a := v])"
    using a Cons.prems(3) by (simp add: py_set_in)
  have len': "length (scores[nat a := v]) = nat (W env0 * H env0)" using Cons.prems(3) by simp
  have as': "\<forall>a\<in>set as. 0 \<le> a \<and> a < W env0 * H env0 \<and> idx_dirs env0 p (nat a) \<noteq> []"
    using Cons.prems(1) by simp
  have dist': "distinct as" and an: "a \<notin> set as" using Cons.prems(2) by simp_all
  show ?case
  proof (cases dn)
    case True
    have miss': "\<forall>a\<in>set as. \<forall>child obs r1 r2 dn nfo.
                 call_step env0 a = Some (child, obs, r1, r2, dn, nfo) \<longrightarrow> cache c (np_str (field child)) = None"
      using Cons.prems(4) by simp
    from Cons.IH[OF as' dist' len' miss', of child] obtain c' env' where
      ih: "negamax_loop md c child md (backup env0) p as (scores[nat a := v])
             = Some (c', env', fold (\<lambda>a sc. sc[nat a := two_ply_score env0 a]) as (scores[nat a := v]))"
      by blast
    have "negamax_loop md c env md (backup env0) p (a # as) scores
            = negamax_loop md c child md (backup env0) p as (scores[nat a := v])"
      by (cases "p = 0")
         (use True cs ps p in \<open>simp_all add: restore_backup Let_def v_def two_ply_score_def\<close>)
    with ih show ?thesis by (simp add: v_def)
  next
    case False
    have tfc: "table_fits child" using tf table_fits_cong[OF dc] by simp
    have mc: "cache c (np_str (field child)) = None" using Cons.prems(4) cs by simp
    define c1 where "c1 = c\<lparr>count := count c + 1,
                             cache := (cache c)(np_str (field child) \<mapsto> cutoff_scores child)\<rparr>"
    from negamax_cutoff[OF _ okc tfc mc, of md "md + 1"] obtain env1 where
      rec: "negamax md c child (md + 1) = Some (c1, env1, cutoff_scores child)"
      unfolding c1_def by auto
    have "cutoff_scores child \<noteq> []"
      using a dc cutoff_scores_length[of child] by (auto simp: action_space_n_def)
    then have mx: "np_max (cutoff_scores child) = Some (Max (set (cutoff_scores child)))"
      by (rule np_max_Some)
    have miss': "\<forall>b\<in>set as. \<forall>child obs r1 r2 dn nfo.
                 call_step env0 b = Some (child, obs, r1, r2, dn, nfo) \<longrightarrow> cache c1 (np_str (field child)) = None"
    proof (intro ballI allI impI)
      fix b cb ob rb1 rb2 db nb
      assume b: "b \<in> set as" and cbs: "call_step env0 b = Some (cb, ob, rb1, rb2, db, nb)"
      have ab: "a \<noteq> b" using an b by auto
      have bb: "0 \<le> b" "b < W env0 * H env0" "idx_dirs env0 (player_index env0) (nat b) \<noteq> []"
        using as' b by (simp_all add: p)
      have "field child \<noteq> field cb"
        by (rule distinct_children[OF ok ab a ne bb cs cbs])
      moreover have "length (field child) \<le> 1000"
        using engine_ok_facts(1)[OF okc] dc small by (simp add: board_ok_def)
      moreover have "length (field cb) \<le> 1000"
      proof -
        from legal_child[OF ok bb] cbs have "engine_ok cb" "W cb = W env0" "H cb = H env0"
          by auto
        then show ?thesis using engine_ok_facts(1)[of cb] small by (simp add: board_ok_def)
      qed
      ultimately have "np_str (field child) \<noteq> np_str (field cb)"
        using np_str_inj by blast
      moreover have "cache c (np_str (field cb)) = None" using Cons.prems(4) b cbs by simp
      ultimately show "cache c1 (np_str (field cb)) = None" by (simp add: c1_def)
    qed
    from Cons.IH[OF as' dist' len' miss', of env1] obtain c' env' where
      ih: "negamax_loop md c1 env1 md (backup env0) p as (scores[nat a := v])
             = Some (c', env', fold (\<lambda>a sc. sc[nat a := two_ply_score env0 a]) as (scores[nat a := v]))"
      by blast
    have "negamax_loop md c env md (backup env0) p (a # as) scores
            = negamax_loop md c1 env1 md (backup env0) p as (scores[nat a := v])"
      by (cases "p = player_index child")
         (use False cs ps p rec mx in \<open>simp_all add: restore_backup Let_def v_def two_ply_score_def\<close>)
    with ih show ?thesis by (simp add: v_def)
  qed
qed

lemma negamax_last_level:
  assumes ok: "engine_ok env" and tf: "table_fits env" and empty: "cache c = Map.empty"
    and small: "action_space_n env \<le> 1000"
  shows "\<exists>c' env'. negamax md c env md
           = Some (c', env',
                   map (\<lambda>a. if movable_at env (player_index env) a = Some [] then -999
                             else two_ply_score env a) [0 .. action_space_n env - 1])"
proof -
  define p where "p = player_index env"
  define n where "n = W env * H env"
  define valid where "valid = filter (\<lambda>a. idx_dirs env p (nat a) \<noteq> []) [0 .. n - 1]"
  define c1 where "c1 = c\<lparr>count := count c + 1\<rparr>"
  have pp: "p = 0 \<or> p = 1" using engine_ok_facts(3)[OF ok] by (simp add: p_def)
  have gv: "get_valid_actions env p = Some valid"
    using get_valid_actions_spec[OF ok pp] by (simp add: valid_def n_def)
  have as: "\<forall>a\<in>set valid. 0 \<le> a \<and> a < W env * H env \<and> idx_dirs env p (nat a) \<noteq> []"
    by (auto simp: valid_def n_def)
  have dist: "distinct valid" by (simp add: valid_def)
  have len: "length (replicate (nat n) (-999::int)) = nat (W env * H env)" by (simp add: n_def)
  have miss: "\<forall>a\<in>set valid. \<forall>child obs r1 r2 dn nfo.
                 call_step env a = Some (child, obs, r1, r2, dn, nfo) \<longrightarrow> cache c1 (np_str (field child)) = None"
    by (simp add: c1_def empty)
  let ?g = "two_ply_score env"
  have small': "W env * H env \<le> 1000" using small by (simp add: action_space_n_def)
  from negamax_loop_last[OF ok tf p_def as dist len small' miss, of md env] obtain c' env' where
    lp: "negamax_loop md c1 env md (backup env) p valid (replicate (nat n) (-999))
           = Some (c', env', fold (\<lambda>a sc. sc[nat a := ?g a]) valid (replicate (nat n) (-999)))"
    by blast
  let ?r = "map (\<lambda>a. if movable_at env (player_index env) a = Some [] then -999
                             else two_ply_score env a) [0 .. action_space_n env - 1]"
  have eq: "fold (\<lambda>a sc. sc[nat a := ?g a]) valid (replicate (nat n) (-999)) = ?r"
  proof (rule nth_equalityI)
    show "length (fold (\<lambda>a sc. sc[nat a := ?g a]) valid (replicate (nat n) (-999))) = length ?r"
      by (simp add: fold_upd_length action_space_n_def n_def)
  next
    fix i assume "i < length (fold (\<lambda>a sc. sc[nat a := ?g a]) valid (replicate (nat n) (-999)))"
    then have i: "i < nat n" by (simp add: fold_upd_length)
    then have ir: "0 \<le> int i" "int i < W env * H env" by (simp_all add: n_def)
    have v0: "\<forall>a\<in>set valid. 0 \<le> a" using as by blast
    have ma: "movable_at env p (int i) = Some (idx_dirs env p i)"
      using movable_at_engine[OF ok pp ir] by simp
    have "fold (\<lambda>a sc. sc[nat a := ?g a]) valid (replicate (nat n) (-999)) ! i
            = (if int i \<in> set valid then ?g (int i) else -999)"
      using fold_upd_nth[OF v0, of i "replicate (nat n) (-999)" ?g] i by simp
    also have "\<dots> = (if idx_dirs env p i = [] then -999 else ?g (int i))"
      using i by (auto simp: valid_def)
    also have "\<dots> = ?r ! i"
      using i ma by (auto simp: action_space_n_def n_def p_def[symmetric])
    finally show "fold (\<lambda>a sc. sc[nat a := ?g a]) valid (replicate (nat n) (-999)) ! i = ?r ! i" .
  qed
  have "cache c (np_str (field env)) = None" by (simp add: empty)
  then show ?thesis
    unfolding negamax.simps[of md c env md]
    using gv lp
    by (simp add: Let_def p_def[symmetric] c1_def[symmetric] n_def[symmetric] eq
          action_space_n_def[of env, unfolded n_def[symmetric]])
qed

text \<open>
  C5 (as amended). With \<open>max_depth = 0\<close> the root vector is a two-ply lookahead, since a node
  is cut off only at a depth above \<open>max_depth\<close> and the root has depth 0. Starting from an
  empty cache, on a well-formed engine whose board has at most 1000 cells (so that the
  cache key determines the board) and the shape of its table, the search returns; illegal actions keep -999; a legal action whose move ends the game scores 500
  times the mover's reward; any other legal action scores the maximum of the vector of
  its child, negated exactly when the mover changed. The child's vector is that of a
  cut-off node: -999 for its illegal actions, 500 times its mover's reward for a move that
  ends the game, and otherwise the static value of the board two moves ahead of the root,
  negated when the child's mover is not player 0.
\<close>

theorem max_depth_zero_two_ply:
  assumes "engine_ok env" "table_fits env" "cache c = Map.empty" "action_space_n env \<le> 1000"
  shows "\<exists>c' env' scores. negamax 0 c env 0 = Some (c', env', scores) \<and>
     length scores = nat (action_space_n env) \<and>
     (\<forall>a. 0 \<le> a \<and> a < action_space_n env \<longrightarrow>
        (movable_at env (player_index env) a = Some [] \<longrightarrow> scores ! nat a = -999) \<and>
        (movable_at env (player_index env) a \<noteq> Some [] \<longrightarrow>
           (\<exists>child obs r1 r2 dn nfo. call_step env a = Some (child, obs, r1, r2, dn, nfo) \<and>
              (dn \<longrightarrow> scores ! nat a = (if player_index env = 0 then r1 else r2) * 500) \<and>
              (\<not> dn \<longrightarrow>
                 scores ! nat a
                   = (if player_index env \<noteq> player_index child
                      then - Max (set (cutoff_scores child)) else Max (set (cutoff_scores child))) \<and>
                 length (cutoff_scores child) = nat (action_space_n child) \<and>
                 (\<forall>b. 0 \<le> b \<and> b < action_space_n child \<longrightarrow>
                    (movable_at child (player_index child) b = Some [] \<longrightarrow>
                       cutoff_scores child ! nat b = -999) \<and>
                    (movable_at child (player_index child) b \<noteq> Some [] \<longrightarrow>
                       (\<exists>g obs' q1 q2 dn' nfo'.
                          call_step child b = Some (g, obs', q1, q2, dn', nfo') \<and>
                          (dn' \<longrightarrow> cutoff_scores child ! nat b
                                     = (if player_index child = 0 then q1 else q2) * 500) \<and>
                          (\<not> dn' \<longrightarrow> eval_board g = Some (board_value g) \<and>
                             cutoff_scores child ! nat b
                               = (if player_index child \<noteq> 0 then - board_value g
                                  else board_value g)))))))))"
proof -
  let ?r = "map (\<lambda>a. if movable_at env (player_index env) a = Some [] then -999
                             else two_ply_score env a) [0 .. action_space_n env - 1]"
  from negamax_last_level[OF assms, of 0] obtain c' env' where
    run: "negamax 0 c env 0 = Some (c', env', ?r)" by blast
  have len: "length ?r = nat (action_space_n env)" by simp
  have pt: "(movable_at env (player_index env) a = Some [] \<longrightarrow> ?r ! nat a = -999) \<and>
        (movable_at env (player_index env) a \<noteq> Some [] \<longrightarrow>
           (\<exists>child obs r1 r2 dn nfo. call_step env a = Some (child, obs, r1, r2, dn, nfo) \<and>
              (dn \<longrightarrow> ?r ! nat a = (if player_index env = 0 then r1 else r2) * 500) \<and>
              (\<not> dn \<longrightarrow>
                 ?r ! nat a
                   = (if player_index env \<noteq> player_index child
                      then - Max (set (cutoff_scores child)) else Max (set (cutoff_scores child))) \<and>
                 length (cutoff_scores child) = nat (action_space_n child) \<and>
                 (\<forall>b. 0 \<le> b \<and> b < action_space_n child \<longrightarrow>
                    (movable_at child (player_index child) b = Some [] \<longrightarrow>
                       cutoff_scores child ! nat b = -999) \<and>
                    (movable_at child (player_index child) b \<noteq> Some [] \<longrightarrow>
                       (\<exists>g obs' q1 q2 dn' nfo'.
                          call_step child b = Some (g, obs', q1, q2, dn', nfo') \<and>
                          (dn' \<longrightarrow> cutoff_scores child ! nat b
                                     = (if player_index child = 0 then q1 else q2) * 500) \<and>
                          (\<not> dn' \<longrightarrow> eval_board g = Some (board_value g) \<and>
                             cutoff_scores child ! nat b
                               = (if player_index child \<noteq> 0 then - board_value g
                                  else board_value g))))))))"
    if a: "0 \<le> a \<and> a < action_space_n env" for a
  proof -
    have a1: "0 \<le> a" "a < action_space_n env" using a by simp_all
    have a': "a < W env * H env" using a by (simp add: action_space_n_def)
    have nth: "?r ! nat a = (if movable_at env (player_index env) a = Some [] then -999
                             else two_ply_score env a)"
      using a1 upto_nth[OF a1] by simp
    show ?thesis
    proof (intro conjI impI)
      assume "movable_at env (player_index env) a = Some []"
      then show "?r ! nat a = -999" unfolding nth by simp
    next
      assume l: "movable_at env (player_index env) a \<noteq> Some []"
      from legal_child[OF assms(1) a1(1) a' legal_idx_dirs[OF assms(1) a1 l]]
      obtain child obs r1 r2 dn nfo where
        cs: "call_step env a = Some (child, obs, r1, r2, dn, nfo)"
        and okc: "engine_ok child" and dc: "W child = W env" "H child = H env"
        by blast
      have tfc: "table_fits child" using assms(2) table_fits_cong[OF dc] by simp
      have v: "?r ! nat a = two_ply_score env a" unfolding nth using l by simp
      have d1: "dn \<longrightarrow> ?r ! nat a = (if player_index env = 0 then r1 else r2) * 500"
        unfolding v using cs by (simp add: two_ply_score_def)
      have d2: "\<not> dn \<longrightarrow> ?r ! nat a
                   = (if player_index env \<noteq> player_index child
                      then - Max (set (cutoff_scores child)) else Max (set (cutoff_scores child)))"
        unfolding v using cs by (simp add: two_ply_score_def)
      note d3 = cutoff_scores_length[of child]
      have d4: "\<forall>b. 0 \<le> b \<and> b < action_space_n child \<longrightarrow>
                    (movable_at child (player_index child) b = Some [] \<longrightarrow>
                       cutoff_scores child ! nat b = -999) \<and>
                    (movable_at child (player_index child) b \<noteq> Some [] \<longrightarrow>
                       (\<exists>g obs' q1 q2 dn' nfo'.
                          call_step child b = Some (g, obs', q1, q2, dn', nfo') \<and>
                          (dn' \<longrightarrow> cutoff_scores child ! nat b
                                     = (if player_index child = 0 then q1 else q2) * 500) \<and>
                          (\<not> dn' \<longrightarrow> eval_board g = Some (board_value g) \<and>
                             cutoff_scores child ! nat b
                               = (if player_index child \<noteq> 0 then - board_value g
                                  else board_value g))))"
        using cutoff_scores_nth[OF okc tfc] by blast
      from cs d1 d2 d3 d4
      show "\<exists>child obs r1 r2 dn nfo. call_step env a = Some (child, obs, r1, r2, dn, nfo) \<and>
              (dn \<longrightarrow> ?r ! nat a = (if player_index env = 0 then r1 else r2) * 500) \<and>
              (\<not> dn \<longrightarrow>
                 ?r ! nat a
                   = (if player_index env \<noteq> player_index child
                      then - Max (set (cutoff_scores child)) else Max (set (cutoff_scores child))) \<and>
                 length (cutoff_scores child) = nat (action_space_n child) \<and>
                 (\<forall>b. 0 \<le> b \<and> b < action_space_n child \<longrightarrow>
                    (movable_at child (player_index child) b = Some [] \<longrightarrow>
                       cutoff_scores child ! nat b = -999) \<and>
                    (movable_at child (player_index child) b \<noteq> Some [] \<longrightarrow>
                       (\<exists>g obs' q1 q2 dn' nfo'.
                          call_step child b = Some (g, obs', q1, q2, dn', nfo') \<and>
                          (dn' \<longrightarrow> cutoff_scores child ! nat b
                                     = (if player_index child = 0 then q1 else q2) * 500) \<and>
                          (\<not> dn' \<longrightarrow> eval_board g = Some (board_value g) \<and>
                             cutoff_scores child ! nat b
                               = (if player_index child \<noteq> 0 then - board_value g
                                  else board_value g))))))"
        by blast
    qed
  qed
  from run len pt show ?thesis by blast
qed

lemma call_step_board51:
  "call_step board51 0 = Some (board51_pass, field board51_pass, 0, 0, False, [])"
  by code_simp

lemma cutoff_scores_board51_pass: "cutoff_scores board51_pass = [- 999, - 999, - 999, - 999, 500]"
  by code_simp

theorem max_depth_zero_two_ply_witness:
  "engine_ok board51 \<and> table_fits board51 \<and> cache empty_search = Map.empty \<and>
   action_space_n board51 \<le> 1000 \<and> (0::int) \<le> 0 \<and> 0 < action_space_n board51 \<and>
   movable_at board51 (player_index board51) 0 \<noteq> Some [] \<and>
   call_step board51 0 = Some (board51_pass, field board51_pass, 0, 0, False, []) \<and>
   (\<exists>c' env' scores. negamax 0 empty_search board51 0 = Some (c', env', scores) \<and>
      scores ! nat 0 = Max (set (cutoff_scores board51_pass)) \<and> scores ! nat 0 = 500)"
proof -
  have h: "table_fits board51" "cache empty_search = Map.empty" "action_space_n board51 \<le> 1000"
    by (simp_all add: table_fits_def board51_def empty_search_def action_space_n_def)
  have a: "(0::int) \<le> 0 \<and> 0 < action_space_n board51"
    "movable_at board51 (player_index board51) 0 \<noteq> Some []"
    by (simp_all add: board51_def action_space_n_def movable_at_def py_get_def py_index_def)
  have p: "player_index board51 = player_index board51_pass"
    by (simp add: board51_def board51_pass_def)
  from max_depth_zero_two_ply[OF engine_ok_board51 h] obtain c' env' scores where
    n: "negamax 0 empty_search board51 0 = Some (c', env', scores)"
    and s: "(\<forall>a. 0 \<le> a \<and> a < action_space_n board51 \<longrightarrow>
        (movable_at board51 (player_index board51) a = Some [] \<longrightarrow> scores ! nat a = -999) \<and>
        (movable_at board51 (player_index board51) a \<noteq> Some [] \<longrightarrow>
           (\<exists>child obs r1 r2 dn nfo. call_step board51 a = Some (child, obs, r1, r2, dn, nfo) \<and>
              (dn \<longrightarrow> scores ! nat a = (if player_index board51 = 0 then r1 else r2) * 500) \<and>
              (\<not> dn \<longrightarrow>
                 scores ! nat a
                   = (if player_index board51 \<noteq> player_index child
                      then - Max (set (cutoff_scores child)) else Max (set (cutoff_scores child))) \<and>
                 length (cutoff_scores child) = nat (action_space_n child) \<and>
                 (\<forall>b. 0 \<le> b \<and> b < action_space_n child \<longrightarrow>
                    (movable_at child (player_index child) b = Some [] \<longrightarrow>
                       cutoff_scores child ! nat b = -999) \<and>
                    (movable_at child (player_index child) b \<noteq> Some [] \<longrightarrow>
                       (\<exists>g obs' q1 q2 dn' nfo'.
                          call_step child b = Some (g, obs', q1, q2, dn', nfo') \<and>
                          (dn' \<longrightarrow> cutoff_scores child ! nat b
                                     = (if player_index child = 0 then q1 else q2) * 500) \<and>
                          (\<not> dn' \<longrightarrow> eval_board g = Some (board_value g) \<and>
                             cutoff_scores child ! nat b
                               = (if player_index child \<noteq> 0 then - board_value g
                                  else board_value g)))))))))"
    by blast
  from s[rule_format, OF a(1)] a(2) call_step_board51 p
  have v: "scores ! nat 0 = Max (set (cutoff_scores board51_pass))" by auto
  then have "scores ! nat 0 = 500" by (simp add: cutoff_scores_board51_pass)
  with v n engine_ok_board51 h a call_step_board51 show ?thesis by blast
qed

theorem max_depth_zero_single_ply_counterexample:
  "movable_at board51 (player_index board51) 0 = Some [6] \<and>
   call_step board51 0 = Some (board51_pass, field board51_pass, 0, 0, False, []) \<and>
   eval_board board51_pass = Some 0 \<and>
   map_option (snd \<circ> snd) (negamax 0 empty_search board51 0)
     = Some [500, - 999, - 999, - 999, 500]"
proof -
  have m: "movable_at board51 (player_index board51) 0 = Some [6]"
    by (simp add: board51_def movable_at_def py_get_def py_index_def)
  have e: "eval_board board51_pass = Some 0"
    by (simp add: eval_board_def board51_pass_def)
  have n: "map_option (snd \<circ> snd) (negamax 0 empty_search board51 0)
     = Some [500, - 999, - 999, - 999, 500]"
    by code_simp
  from m e n call_step_board51 show ?thesis by simp
qed

text \<open>
  C10. The claim does not hold on a board of width 8 whose height is not 8 (or of width 6
  whose height is not 6): the leaf evaluation multiplies the 64-entry table with the board
  array, numpy cannot broadcast the two shapes, and the search raises instead of falling
  back to the constant 0 of the boards without a table. On the 8x6 opening board, where
  player 0 has four legal actions, \<open>call_policy\<close> with the default \<open>max_depth = 2\<close> and an empty
  cache returns no action.
\<close>

theorem call_policy_raises_on_8x6:
  "call_reset (fresh 8 6) = Some board86 \<and>
   get_valid_actions board86 (player_index board86) = Some [12, 21, 26, 35] \<and>
   call_policy 2 empty_search board86 = None"
proof -
  have r: "call_reset (fresh 8 6) = Some board86" by code_simp
  have v: "get_valid_actions board86 (player_index board86) = Some [12, 21, 26, 35]" by code_simp
  have p: "call_policy 2 empty_search board86 = None" by code_simp
  from r v p show ?thesis by simp
qed

end
